theory Spec2Isabelle
  imports Main "HOL-Library.Log_Nat"
begin

section \<open>Python floats\<close>

text \<open>
  A finite IEEE 754 double is the rational number it denotes. Each arithmetic operation
  of Python on floats (\<open>+\<close>, \<open>-\<close>, \<open>*\<close>, \<open>/\<close>, the conversion of an int, the true division
  of two ints, a decimal literal) returns the exact result rounded to the nearest double,
  ties to even: \<open>fl\<close>. The mantissa has 53 bits; below \<open>2 powi (- 1022)\<close> the spacing
  stays that of the smallest normal exponent (subnormal numbers). Overflow to infinity,
  NaN and the sign of zero are outside this model: no value of the program comes near
  \<open>2 powi 1024\<close> on pixel data, and the one infinity of the source (\<open>best_dist\<close>) is
  modelled separately.
\<close>

type_synonym pyfloat = rat

definition binexp :: "rat \<Rightarrow> int" where
  \<comment> \<open>the binary exponent \<open>e\<close> of \<open>x \<noteq> 0\<close>: \<open>2 powi e \<le> \<bar>x\<bar> < 2 powi (e + 1)\<close>\<close>
  "binexp x = (case quotient_of \<bar>x\<bar> of (p, q) \<Rightarrow>
     (let d = bitlen p - bitlen q in if 2 powi d \<le> \<bar>x\<bar> then d else d - 1))"

definition round_half_even :: "rat \<Rightarrow> int" where
  "round_half_even m = (let f = \<lfloor>m\<rfloor>; d = m - of_int f in
     if d < 1 / 2 then f else if 1 / 2 < d then f + 1 else if even f then f else f + 1)"

definition fl :: "rat \<Rightarrow> pyfloat" where
  "fl x = (if x = 0 then 0 else
     (let s = 2 powi (52 - max (binexp x) (- 1022)) in of_int (round_half_even (x * s)) / s))"

definition fadd :: "pyfloat \<Rightarrow> pyfloat \<Rightarrow> pyfloat" where
  "fadd x y = fl (x + y)"

definition fsub :: "pyfloat \<Rightarrow> pyfloat \<Rightarrow> pyfloat" where
  "fsub x y = fl (x - y)"

definition fmul :: "pyfloat \<Rightarrow> pyfloat \<Rightarrow> pyfloat" where
  "fmul x y = fl (x * y)"

definition fdiv :: "pyfloat \<Rightarrow> pyfloat \<Rightarrow> pyfloat" where
  \<comment> \<open>only called with a non-zero divisor (the literals \<open>255.0\<close> and \<open>2 * pi\<close>)\<close>
  "fdiv x y = fl (x / y)"

definition float_of_int :: "int \<Rightarrow> pyfloat" where
  \<comment> \<open>the conversion of an int operand in mixed arithmetic\<close>
  "float_of_int i = fl (of_int i)"

definition int_truediv :: "int \<Rightarrow> int \<Rightarrow> pyfloat" where
  \<comment> \<open>\<open>i / m\<close> on two ints, \<open>m \<noteq> 0\<close>: the correctly rounded quotient\<close>
  "int_truediv i m = fl (of_int i / of_int m)"

definition py_int :: "pyfloat \<Rightarrow> int" where
  \<comment> \<open>\<open>int(x)\<close> truncates toward zero\<close>
  "py_int x = (if 0 \<le> x then \<lfloor>x\<rfloor> else \<lceil>x\<rceil>)"

definition float_mod :: "pyfloat \<Rightarrow> pyfloat \<Rightarrow> pyfloat" where
  \<comment> \<open>\<open>x % y\<close> for \<open>y \<noteq> 0\<close>: C's exact \<open>fmod\<close>, then one rounded addition of \<open>y\<close>
      when the signs differ\<close>
  "float_mod x y = (let m = x - of_int (py_int (x / y)) * y in
     if m \<noteq> 0 \<and> ((y < 0) \<noteq> (m < 0)) then fadd m y else m)"

section \<open>The palettes\<close>

type_synonym rgb = "int \<times> int \<times> int"
type_synonym rgba = "int \<times> int \<times> int \<times> int"
type_synonym palette = "(string \<times> rgb) list"

definition GAME_PALETTE_32 :: palette where
  "GAME_PALETTE_32 =
   [(''red'', (230, 57, 70)),
    (''orange'', (244, 162, 97)),
    (''yellow'', (233, 196, 106)),
    (''green'', (76, 175, 80)),
    (''teal'', (42, 157, 143)),
    (''brown'', (141, 110, 99)),
    (''charcoal'', (47, 47, 47)),
    (''lightgray'', (176, 190, 197)),
    (''sky'', (33, 150, 243)),
    (''indigo'', (63, 81, 181)),
    (''violet'', (156, 39, 176)),
    (''magenta'', (233, 30, 99)),
    (''coral'', (255, 112, 67)),
    (''gold'', (255, 235, 59)),
    (''seafoam'', (0, 150, 136)),
    (''umber'', (121, 85, 72)),
    (''slate'', (96, 125, 139)),
    (''gray'', (158, 158, 158)),
    (''bluegray'', (69, 90, 100)),
    (''deeporange'', (255, 87, 34)),
    (''lime'', (205, 220, 57)),
    (''leaf'', (139, 195, 74)),
    (''cyan'', (0, 188, 212)),
    (''azure'', (3, 169, 244)),
    (''purple'', (103, 58, 183)),
    (''hotpink'', (255, 64, 129)),
    (''amber'', (255, 152, 0)),
    (''white'', (250, 250, 250)),
    (''storm'', (84, 110, 122)),
    (''petalpink'', (255, 167, 192)),
    (''darkgray'', (66, 66, 66)),
    (''black'', (0, 0, 0))]"

datatype error = ValueError string | SystemExit string | OSError string

definition palette_for_size :: "int \<Rightarrow> error + palette" where
  "palette_for_size sz =
     (if sz \<noteq> 16 \<and> sz \<noteq> 32 then Inl (ValueError ''palette-size must be 16 or 32'')
      else Inr (take (nat sz) GAME_PALETTE_32))"

subsection \<open>The tonal palette\<close>

text \<open>
  The functions of Python's standard library that \<open>tonal_palette_from_pixels\<close> calls are
  not part of the repository: they are parameters of the model. What a theorem needs to
  know of them is a hypothesis of that theorem (\<open>cpython_lib\<close> below).
\<close>

record pylib =
  colorsys_rgb_to_hsv :: "pyfloat \<Rightarrow> pyfloat \<Rightarrow> pyfloat \<Rightarrow> pyfloat \<times> pyfloat \<times> pyfloat"
  colorsys_hsv_to_rgb :: "pyfloat \<Rightarrow> pyfloat \<Rightarrow> pyfloat \<Rightarrow> pyfloat \<times> pyfloat \<times> pyfloat"
  math_pi :: pyfloat
  math_cos :: "pyfloat \<Rightarrow> pyfloat"
  math_sin :: "pyfloat \<Rightarrow> pyfloat"
  math_atan2 :: "pyfloat \<Rightarrow> pyfloat \<Rightarrow> pyfloat"
  builtin_sum :: "pyfloat list \<Rightarrow> pyfloat"

text \<open>
  The two functions of \<open>colorsys\<close>, as CPython's \<open>Lib/colorsys.py\<close> defines them, in the
  float model above. \<open>rgb_to_hsv\<close> divides by \<open>maxc\<close> and \<open>rangec\<close> only when the channels
  differ; for channels in \<open>[0, 1]\<close> both are positive then.
\<close>

definition rgb_to_hsv :: "pyfloat \<Rightarrow> pyfloat \<Rightarrow> pyfloat \<Rightarrow> pyfloat \<times> pyfloat \<times> pyfloat" where
  "rgb_to_hsv r g b =
     (let maxc = max r (max g b); minc = min r (min g b); rangec = fsub maxc minc; v = maxc in
      if minc = maxc then (0, 0, v)
      else
        (let s = fdiv rangec maxc;
             rc = fdiv (fsub maxc r) rangec;
             gc = fdiv (fsub maxc g) rangec;
             bc = fdiv (fsub maxc b) rangec;
             h = (if r = maxc then fsub bc gc
                  else if g = maxc then fsub (fadd 2 rc) bc
                  else fsub (fadd 4 gc) rc)
         in (float_mod (fdiv h 6) 1, s, v)))"

definition hsv_to_rgb :: "pyfloat \<Rightarrow> pyfloat \<Rightarrow> pyfloat \<Rightarrow> pyfloat \<times> pyfloat \<times> pyfloat" where
  "hsv_to_rgb h s v =
     (if s = 0 then (v, v, v)
      else
        (let i = py_int (fmul h 6);
             f = fsub (fmul h 6) (float_of_int i);
             p = fmul v (fsub 1 s);
             q = fmul v (fsub 1 (fmul s f));
             t = fmul v (fsub 1 (fmul s (fsub 1 f)));
             i = i mod 6
         in if i = 0 then (v, t, p)
            else if i = 1 then (q, v, p)
            else if i = 2 then (p, v, t)
            else if i = 3 then (p, q, v)
            else if i = 4 then (t, p, v)
            else (v, p, q)))"

definition cpython_lib :: "pylib \<Rightarrow> bool" where
  \<comment> \<open>what is known exactly of the library: \<open>colorsys\<close>, the double \<open>math.pi\<close>, the results
      of the C library that are exact (\<open>cos(0.0)\<close>, \<open>sin(0.0)\<close>, \<open>atan2(0.0, 1.0)\<close>) and the
      sum of a single float\<close>
  "cpython_lib L \<longleftrightarrow>
     colorsys_rgb_to_hsv L = rgb_to_hsv \<and> colorsys_hsv_to_rgb L = hsv_to_rgb \<and>
     math_pi L = 884279719003555 / 281474976710656 \<and>
     math_cos L 0 = 1 \<and> math_sin L 0 = 0 \<and> math_atan2 L 0 1 = 0 \<and>
     builtin_sum L [0] = 0 \<and> builtin_sum L [1] = 1"

fun str_nat :: "nat \<Rightarrow> string" where
  \<comment> \<open>the decimal digits of a non-negative int, as an f-string prints it\<close>
  "str_nat n = (if n < 10 then [''0123456789'' ! n]
                else str_nat (n div 10) @ [''0123456789'' ! (n mod 10)])"

declare str_nat.simps [simp del]

definition hsv_values :: "pylib \<Rightarrow> rgb list \<Rightarrow> (pyfloat \<times> pyfloat \<times> pyfloat) list" where
  "hsv_values L pixels =
     map (\<lambda>(r, g, b). colorsys_rgb_to_hsv L (fdiv (float_of_int r) 255)
                          (fdiv (float_of_int g) 255) (fdiv (float_of_int b) 255)) pixels"

definition hue_sat :: "pylib \<Rightarrow> (pyfloat \<times> pyfloat \<times> pyfloat) list \<Rightarrow> pyfloat \<times> pyfloat" where
  \<comment> \<open>the circular mean hue and the median saturation of the colourful pixels\<close>
  "hue_sat L colorful =
     (if colorful \<noteq> [] then
        (let two_pi = fmul 2 (math_pi L);
             x = builtin_sum L (map (\<lambda>(h, s, v). math_cos L (fmul two_pi h)) colorful);
             y = builtin_sum L (map (\<lambda>(h, s, v). math_sin L (fmul two_pi h)) colorful);
             hue = float_mod (fdiv (math_atan2 L y x) two_pi) 1;
             sat = sort (map (\<lambda>(h, s, v). s) colorful) ! (length colorful div 2)
         in (hue, sat))
      else (0, 0))"

definition tone_values :: "int \<Rightarrow> pyfloat list" where
  \<comment> \<open>\<open>[0.22 + (0.72 * (i / max(1, buckets - 1))) for i in range(buckets)]\<close>\<close>
  "tone_values buckets =
     map (\<lambda>i. fadd (fl (22 / 100)) (fmul (fl (72 / 100)) (int_truediv (int i) (max 1 (buckets - 1)))))
       [0 ..< nat buckets]"

definition tone_entry :: "pylib \<Rightarrow> pyfloat \<Rightarrow> pyfloat \<Rightarrow> nat \<times> pyfloat \<Rightarrow> string \<times> rgb" where
  "tone_entry L hue sat iv =
     (case iv of (i, v) \<Rightarrow>
        (case colorsys_hsv_to_rgb L hue sat v of (r, g, b) \<Rightarrow>
           (''tone'' @ str_nat i, (py_int (fmul r 255), py_int (fmul g 255), py_int (fmul b 255)))))"

definition tonal_palette_from_pixels :: "pylib \<Rightarrow> rgb list \<Rightarrow> int \<Rightarrow> palette" where
  "tonal_palette_from_pixels L pixels buckets =
     (let colorful = filter (\<lambda>(h, s, v). fl (12 / 100) < s) (hsv_values L pixels);
          (hue, sat0) = hue_sat L colorful;
          sat = max (fl (25 / 100)) (min (fl (85 / 100)) sat0)
      in map (tone_entry L hue sat) (enumerate 0 (tone_values buckets)))"

section \<open>The nearest palette entry\<close>

definition sqdist :: "rgb \<Rightarrow> rgb \<Rightarrow> int" where
  "sqdist c p = (case c of (r, g, b) \<Rightarrow> case p of (pr, pg, pb) \<Rightarrow>
     (let dr = r - pr; dg = g - pg; db = b - pb in (dr * dr) + (dg * dg) + (db * db)))"

text \<open>\<open>best_dist\<close> starts as \<open>float("inf")\<close>: \<open>None\<close> here, above every int.\<close>

fun nearest_loop :: "rgb \<Rightarrow> (nat \<times> string \<times> rgb) list \<Rightarrow> nat \<Rightarrow> int option \<Rightarrow> nat" where
  "nearest_loop rgb [] best_idx best_dist = best_idx"
| "nearest_loop rgb ((idx, name, p) # rest) best_idx best_dist =
     (let dist = sqdist rgb p in
      if (case best_dist of None \<Rightarrow> True | Some d \<Rightarrow> dist < d)
      then nearest_loop rgb rest idx (Some dist)
      else nearest_loop rgb rest best_idx best_dist)"

definition nearest_palette_index :: "rgb \<Rightarrow> palette \<Rightarrow> nat" where
  "nearest_palette_index rgb palette = nearest_loop rgb (enumerate 0 palette) 0 None"

section \<open>Rows\<close>

fun chunked_loop :: "int list \<Rightarrow> int \<Rightarrow> int list \<Rightarrow> int list list \<Rightarrow> int list \<times> int list list" where
  "chunked_loop [] w row rows = (row, rows)"
| "chunked_loop (v # values) w row rows =
     (let row' = row @ [v] in
      if int (length row') = w then chunked_loop values w [] (rows @ [row'])
      else chunked_loop values w row' rows)"

definition chunked :: "int list \<Rightarrow> int \<Rightarrow> int list list" where
  "chunked values w = (case chunked_loop values w [] [] of (row, rows) \<Rightarrow>
     if row \<noteq> [] then rows @ [row] else rows)"

section \<open>The conversion\<close>

datatype mode = Tonal | Fixed

record args =
  arg_width :: int
  arg_height :: int
  arg_mode :: mode
  arg_palette_size :: int
  arg_buckets :: int
  arg_alpha_threshold :: int

record conversion =
  out_palette :: palette
  out_mapped :: "int list"
  out_rows :: "int list list"
  out_used :: "int list"

fun solid_pixels :: "int \<Rightarrow> rgba list \<Rightarrow> rgb list" where
  \<comment> \<open>\<open>[(r, g, b) for r, g, b, a in pixels_rgba if a >= args.alpha_threshold]\<close>\<close>
  "solid_pixels t [] = []"
| "solid_pixels t ((r, g, b, a) # pixels_rgba) =
     (if a \<ge> t then (r, g, b) # solid_pixels t pixels_rgba else solid_pixels t pixels_rgba)"

definition main_palette :: "pylib \<Rightarrow> args \<Rightarrow> rgb list \<Rightarrow> error + palette" where
  "main_palette L args solid =
     (if arg_mode args = Fixed then palette_for_size (arg_palette_size args)
      else Inr (tonal_palette_from_pixels L (if solid \<noteq> [] then solid else [(255, 255, 255)])
                  (max 2 (arg_buckets args))))"

definition flatten_channel :: "int \<Rightarrow> pyfloat \<Rightarrow> int" where
  \<comment> \<open>\<open>int((c * alpha) + (255 * (1 - alpha)))\<close>\<close>
  "flatten_channel c alpha = py_int (fadd (fmul (float_of_int c) alpha) (fmul 255 (fsub 1 alpha)))"

definition flattened_rgb :: "rgba \<Rightarrow> rgb" where
  "flattened_rgb px = (case px of (r, g, b, a) \<Rightarrow>
     (let alpha = fdiv (float_of_int a) 255 in
      (flatten_channel r alpha, flatten_channel g alpha, flatten_channel b alpha)))"

text \<open>
  The blend as the specification words it, \<open>channel * \<alpha> + 255 * (1 - \<alpha>)\<close> with
  \<open>\<alpha> = a / 255\<close>, in exact arithmetic; \<open>flattened_rgb\<close> computes it in doubles.
\<close>

definition blend_over_white :: "int \<Rightarrow> int \<Rightarrow> rat" where
  "blend_over_white c a = of_int c * (of_int a / 255) + 255 * (1 - of_int a / 255)"

fun map_pixels :: "int \<Rightarrow> palette \<Rightarrow> rgba list \<Rightarrow> int list" where
  \<comment> \<open>the loop filling \<open>mapped\<close>\<close>
  "map_pixels t palette [] = []"
| "map_pixels t palette ((r, g, b, a) # pixels_rgba) =
     (if a < t then - 1 # map_pixels t palette pixels_rgba
      else int (nearest_palette_index (flattened_rgb (r, g, b, a)) palette)
             # map_pixels t palette pixels_rgba)"

definition main_core :: "pylib \<Rightarrow> args \<Rightarrow> rgba list \<Rightarrow> error + conversion" where
  \<comment> \<open>\<open>main\<close> from the resized pixel buffer \<open>pixels_rgba\<close> to the rows handed to the renderer\<close>
  "main_core L args pixels_rgba =
     (case main_palette L args (solid_pixels (arg_alpha_threshold args) pixels_rgba) of
        Inl e \<Rightarrow> Inl e
      | Inr palette \<Rightarrow>
          (let mapped = map_pixels (arg_alpha_threshold args) palette pixels_rgba;
               rows = chunked mapped (arg_width args);
               used = sort (remdups (filter (\<lambda>v. v \<ge> 0) mapped))
           in Inr \<lparr>out_palette = palette, out_mapped = mapped, out_rows = rows, out_used = used\<rparr>))"

subsection \<open>The whole of \<open>main\<close>\<close>

text \<open>
  Before the conversion, \<open>main\<close> parses the arguments, imports Pillow, looks for the input
  file, opens it and asks Pillow for the pixels:
  \<open>list(img.convert("RGBA").resize((width, height), LANCZOS).getdata())\<close>. Of
  \<open>parse_args\<close> the model keeps the one check on a number, \<open>choices=[16, 32]\<close> for the
  palette size, on which \<open>argparse\<close> exits; \<open>--mode\<close> is restricted by its type. Pillow and
  the file system are outside the repository. \<open>input_failure\<close> is what stops \<open>main\<close>
  before the resize, if anything does: the \<open>SystemExit\<close> for a missing Pillow or a missing
  input file, or the exception of \<open>Image.open\<close> and \<open>convert\<close>. \<open>resized_rgba\<close> is what
  Pillow returns or raises for the opened image at a given width and height, and
  \<open>pillow_contract\<close> is what a theorem assumes of it: a \<open>ValueError\<close> for a side that is
  not positive, and \<open>width * height\<close> pixels otherwise. An exception is not caught anywhere
  in \<open>main\<close>, and the output is written at its end.
\<close>

record pillow =
  input_failure :: "error option"
  resized_rgba :: "int \<Rightarrow> int \<Rightarrow> error + rgba list"

definition pillow_contract :: "pillow \<Rightarrow> bool" where
  "pillow_contract P \<longleftrightarrow>
     (\<forall>w h. (w \<le> 0 \<or> h \<le> 0 \<longrightarrow> (\<exists>msg. resized_rgba P w h = Inl (ValueError msg))) \<and>
            (\<forall>pixels_rgba. resized_rgba P w h = Inr pixels_rgba \<longrightarrow>
               length pixels_rgba = nat (w * h)))"

definition parse_args :: "args \<Rightarrow> error + args" where
  "parse_args argv =
     (if arg_palette_size argv \<noteq> 16 \<and> arg_palette_size argv \<noteq> 32
      then Inl (SystemExit ''argument --palette-size: invalid choice'')
      else Inr argv)"

definition main :: "pylib \<Rightarrow> pillow \<Rightarrow> args \<Rightarrow> error + conversion" where
  "main L P argv =
     (case parse_args argv of
        Inl e \<Rightarrow> Inl e
      | Inr args \<Rightarrow>
          (case input_failure P of
             Some e \<Rightarrow> Inl e
           | None \<Rightarrow>
               (case resized_rgba P (arg_width args) (arg_height args) of
                  Inl e \<Rightarrow> Inl e
                | Inr pixels_rgba \<Rightarrow> main_core L args pixels_rgba)))"

subsection \<open>Instances for the examples\<close>

text \<open>
  Where an example needs a concrete library, it uses this one: \<open>colorsys\<close> as above, and
  trigonometric functions that are right where the C library is exact (at \<open>0\<close>) and
  placeholders elsewhere; the examples call them only at \<open>0\<close>. The image of the examples
  opens, and is white and opaque at every size.
\<close>

definition sample_lib :: pylib where
  "sample_lib =
     \<lparr>colorsys_rgb_to_hsv = rgb_to_hsv,
      colorsys_hsv_to_rgb = hsv_to_rgb,
      math_pi = 884279719003555 / 281474976710656,
      math_cos = (\<lambda>x. 1),
      math_sin = (\<lambda>x. 0),
      math_atan2 = (\<lambda>y x. 0),
      builtin_sum = foldl fadd 0\<rparr>"

definition sample_pillow :: pillow where
  "sample_pillow =
     \<lparr>input_failure = None,
      resized_rgba = (\<lambda>w h.
        if w \<le> 0 \<or> h \<le> 0 then Inl (ValueError ''height and width must be > 0'')
        else Inr (replicate (nat (w * h)) (255, 255, 255, 255)))\<rparr>"

section \<open>Rounding to a double\<close>

lemma of_int_bitlen_bounds:
  assumes "0 < p"
  shows "(2::rat) powi (bitlen p - 1) \<le> of_int p" and "of_int p < (2::rat) powi (bitlen p)"
proof -
  from bitlen_bounds[OF assms]
  have a: "2 ^ nat (bitlen p - 1) \<le> p" and b: "p < 2 ^ nat (bitlen p)" by simp_all
  have b1: "1 \<le> bitlen p"
    using assms bitlen_eq_zero_iff[of p] bitlen_nonneg[of p] by linarith
  have "(2::rat) powi (bitlen p - 1) = of_int (2 ^ nat (bitlen p - 1))"
    using b1 by (simp add: power_int_nonneg_exp)
  also have "\<dots> \<le> of_int p" using a by (simp only: of_int_le_iff)
  finally show "(2::rat) powi (bitlen p - 1) \<le> of_int p" .
  have "(of_int p :: rat) < of_int (2 ^ nat (bitlen p))" using b by (simp only: of_int_less_iff)
  also have "\<dots> = (2::rat) powi (bitlen p)"
    using b1 by (simp add: power_int_nonneg_exp)
  finally show "of_int p < (2::rat) powi (bitlen p)" .
qed

lemma binexp_bounds:
  assumes "x \<noteq> 0"
  shows "2 powi (binexp x) \<le> \<bar>x\<bar>" and "\<bar>x\<bar> < 2 powi (binexp x + 1)"
proof -
  obtain p q where pq: "quotient_of \<bar>x\<bar> = (p, q)" by (cases "quotient_of \<bar>x\<bar>")
  have q: "0 < q" by (rule quotient_of_denom_pos[OF pq])
  have x: "\<bar>x\<bar> = of_int p / of_int q" by (rule quotient_of_div[OF pq])
  have "0 < \<bar>x\<bar>" using assms by simp
  then have p: "0 < p" using q unfolding x by (simp add: zero_less_divide_iff)
  define d where "d = bitlen p - bitlen q"
  note bp = of_int_bitlen_bounds[OF p] and bq = of_int_bitlen_bounds[OF q]
  have qr: "0 < (of_int q :: rat)" using q by simp
  have "(2::rat) powi (d - 1) = 2 powi (bitlen p - 1) / 2 powi (bitlen q)"
    unfolding d_def by (simp flip: power_int_diff add: algebra_simps)
  also have "\<dots> < of_int p / of_int q"
    by (rule frac_less2[OF _ bp(1) qr bq(2)]) simp
  finally have lo: "2 powi (d - 1) < \<bar>x\<bar>" unfolding x .
  have "of_int p / of_int q < (2::rat) powi (bitlen p) / 2 powi (bitlen q - 1)"
    by (rule frac_less[OF _ bp(2) _ bq(1)]) (use p in simp_all)
  also have "\<dots> = 2 powi (d + 1)"
    unfolding d_def by (simp flip: power_int_diff add: algebra_simps)
  finally have hi: "\<bar>x\<bar> < 2 powi (d + 1)" unfolding x .
  have be: "binexp x = (if 2 powi d \<le> \<bar>x\<bar> then d else d - 1)"
    by (simp add: binexp_def pq d_def Let_def)
  show "2 powi (binexp x) \<le> \<bar>x\<bar>" using lo by (simp add: be)
  show "\<bar>x\<bar> < 2 powi (binexp x + 1)" using hi by (simp add: be)
qed

lemma round_half_even_error: "\<bar>of_int (round_half_even m) - m\<bar> \<le> 1 / 2"
proof -
  have "of_int \<lfloor>m\<rfloor> \<le> m" "m < of_int \<lfloor>m\<rfloor> + 1" by linarith+
  then show ?thesis by (auto simp: round_half_even_def Let_def)
qed

lemma round_half_even_of_int: "round_half_even (of_int k) = k"
  by (simp add: round_half_even_def)

lemma fl_0: "fl 0 = 0"
  by (simp add: fl_def)

lemma fl_error:
  assumes "x \<noteq> 0"
  shows "\<bar>fl x - x\<bar> \<le> 2 powi (max (binexp x) (- 1022) - 53)"
proof -
  define e where "e = max (binexp x) (- 1022)"
  define s :: rat where "s = 2 powi (52 - e)"
  have s: "0 < s" by (simp add: s_def)
  have f: "fl x = of_int (round_half_even (x * s)) / s"
    using assms by (simp add: fl_def Let_def s_def e_def)
  have "fl x - x = (of_int (round_half_even (x * s)) - x * s) / s"
    using s by (simp add: f field_simps)
  then have "\<bar>fl x - x\<bar> = \<bar>of_int (round_half_even (x * s)) - x * s\<bar> / s"
    using s by (simp add: abs_divide)
  also have "\<dots> \<le> (1 / 2) / s"
    by (rule divide_right_mono[OF round_half_even_error]) (use s in simp)
  also have "\<dots> = 2 powi (e - 53)"
  proof -
    have "(2::rat) powi (- 1 + (e - 52)) = 2 powi (- 1) * 2 powi (e - 52)"
      by (rule power_int_add) simp
    moreover have "- 1 + (e - 52) = e - 53" by simp
    moreover have "(2::rat) powi (e - 52) = 1 / s"
      using power_int_minus_divide[of "2::rat" "52 - e"] by (simp add: s_def)
    ultimately show ?thesis by simp
  qed
  finally show ?thesis unfolding e_def .
qed

lemma binexp_less:
  assumes "x \<noteq> 0" and "\<bar>x\<bar> < 2 powi k"
  shows "binexp x < k"
proof (rule ccontr)
  assume "\<not> binexp x < k"
  then have "k \<le> binexp x" by simp
  then have "(2::rat) powi k \<le> 2 powi (binexp x)" by (rule power_int_increasing) simp
  with binexp_bounds(1)[OF assms(1)] assms(2) show False by linarith
qed

lemma fl_error_bound:
  assumes "\<bar>x\<bar> < 2 powi k" and "- 1021 \<le> k"
  shows "\<bar>fl x - x\<bar> \<le> 2 powi (k - 54)"
proof (cases "x = 0")
  case True
  then show ?thesis by (simp add: fl_0)
next
  case False
  have "max (binexp x) (- 1022) - 53 \<le> k - 54"
    using binexp_less[OF False assms(1)] assms(2) by simp
  then have "(2::rat) powi (max (binexp x) (- 1022) - 53) \<le> 2 powi (k - 54)"
    by (rule power_int_increasing) simp
  with fl_error[OF False] show ?thesis by linarith
qed

lemma fl_exact:
  assumes "x \<noteq> 0" and "x * 2 powi (52 - max (binexp x) (- 1022)) = of_int m"
  shows "fl x = x"
proof -
  define s :: rat where "s = 2 powi (52 - max (binexp x) (- 1022))"
  have s: "0 < s" by (simp add: s_def)
  have "fl x = of_int (round_half_even (x * s)) / s"
    using assms(1) by (simp add: fl_def Let_def s_def)
  also have "\<dots> = x * s / s" using assms(2) by (simp add: s_def round_half_even_of_int)
  finally show ?thesis using s by simp
qed

lemma fl_of_int:
  assumes "\<bar>n\<bar> < 2 ^ 53"
  shows "fl (of_int n) = of_int n"
proof (cases "n = 0")
  case True
  then show ?thesis by (simp add: fl_0)
next
  case False
  let ?x = "of_int n :: rat"
  have x0: "?x \<noteq> 0" using False by simp
  have "\<bar>?x\<bar> < 2 powi 53"
  proof -
    have "\<bar>?x\<bar> = of_int \<bar>n\<bar>" by simp
    also have "\<dots> < of_int (2 ^ 53)" using assms by (simp only: of_int_less_iff)
    finally show ?thesis by simp
  qed
  from binexp_less[OF x0 this] have e: "0 \<le> 52 - max (binexp ?x) (- 1022)" by simp
  have "?x * 2 powi (52 - max (binexp ?x) (- 1022)) =
        of_int (n * 2 ^ nat (52 - max (binexp ?x) (- 1022)))"
    using e by (simp add: power_int_nonneg_exp)
  from fl_exact[OF x0 this] show ?thesis .
qed

lemma fl_err10: "\<bar>x\<bar> < 1024 \<Longrightarrow> \<bar>fl x - x\<bar> \<le> 1 / 2 ^ 44"
proof -
  assume "\<bar>x\<bar> < 1024"
  then have "\<bar>x\<bar> < 2 powi 10" by simp
  from fl_error_bound[OF this] have "\<bar>fl x - x\<bar> \<le> 2 powi (- 44)" by simp
  then show ?thesis by (simp add: power_int_minus_divide)
qed

lemma fl_err1: "\<bar>x\<bar> < 2 \<Longrightarrow> \<bar>fl x - x\<bar> \<le> 1 / 2 ^ 53"
proof -
  assume "\<bar>x\<bar> < 2"
  then have "\<bar>x\<bar> < 2 powi 1" by simp
  from fl_error_bound[OF this] have "\<bar>fl x - x\<bar> \<le> 2 powi (- 53)" by simp
  then show ?thesis by (simp add: power_int_minus_divide)
qed

lemma float_of_int_byte: "0 \<le> n \<Longrightarrow> n \<le> 255 \<Longrightarrow> float_of_int n = of_int n"
  unfolding float_of_int_def by (rule fl_of_int) simp

lemma fl_err256: "\<bar>x\<bar> < 256 \<Longrightarrow> \<bar>fl x - x\<bar> \<le> 1 / 2 ^ 46"
proof -
  assume "\<bar>x\<bar> < 256"
  then have "\<bar>x\<bar> < 2 powi 8" by simp
  from fl_error_bound[OF this] have "\<bar>fl x - x\<bar> \<le> 2 powi (- 46)" by simp
  then show ?thesis by (simp add: power_int_minus_divide)
qed

lemma fl_1: "fl 1 = 1"
  using fl_of_int[of 1] by simp

text \<open>
  Rounding is monotone and leaves a double unchanged.
\<close>

lemma round_half_even_bounds:
  "\<lfloor>m\<rfloor> \<le> round_half_even m" "round_half_even m \<le> \<lfloor>m\<rfloor> + 1"
  by (auto simp: round_half_even_def Let_def)

lemma round_half_even_mono:
  assumes le: "m \<le> m'"
  shows "round_half_even m \<le> round_half_even m'"
proof (cases "\<lfloor>m\<rfloor> = \<lfloor>m'\<rfloor>")
  case True
  then have "m - of_int \<lfloor>m\<rfloor> \<le> m' - of_int \<lfloor>m'\<rfloor>" using le by simp
  then show ?thesis using True by (auto simp: round_half_even_def Let_def)
next
  case False
  with floor_mono[OF le] have "\<lfloor>m\<rfloor> + 1 \<le> \<lfloor>m'\<rfloor>" by simp
  with round_half_even_bounds(2)[of m] round_half_even_bounds(1)[of m'] show ?thesis by linarith
qed

lemma fl_scaled:
  assumes "x \<noteq> 0"
  shows "fl x = of_int (round_half_even (x * 2 powi (52 - max (binexp x) (- 1022))))
                 / 2 powi (52 - max (binexp x) (- 1022))"
  using assms by (simp add: fl_def Let_def)

lemma fl_nonneg:
  assumes "0 \<le> x"
  shows "0 \<le> fl x"
proof (cases "x = 0")
  case True
  then show ?thesis by (simp add: fl_0)
next
  case False
  define s :: rat where "s = 2 powi (52 - max (binexp x) (- 1022))"
  have s: "0 < s" by (simp add: s_def)
  have "0 \<le> x * s" using assms s by simp
  from round_half_even_mono[OF this] have "0 \<le> round_half_even (x * s)"
    using round_half_even_of_int[of 0] by simp
  then show ?thesis unfolding fl_scaled[OF False] s_def[symmetric] using s by simp
qed

lemma binexp_le:
  assumes "x \<noteq> 0" and "\<bar>x\<bar> \<le> 2 powi k"
  shows "binexp x \<le> k"
proof (rule ccontr)
  assume "\<not> binexp x \<le> k"
  then have "k < binexp x" by simp
  then have "(2::rat) powi k < 2 powi (binexp x)" by (rule power_int_strict_increasing) simp
  with binexp_bounds(1)[OF assms(1)] assms(2) show False by linarith
qed

lemma binexp_ge:
  assumes "x \<noteq> 0" and "2 powi k \<le> \<bar>x\<bar>"
  shows "k \<le> binexp x"
proof (rule ccontr)
  assume "\<not> k \<le> binexp x"
  then have "binexp x + 1 \<le> k" by simp
  then have "(2::rat) powi (binexp x + 1) \<le> 2 powi k" by (rule power_int_increasing) simp
  with binexp_bounds(2)[OF assms(1)] assms(2) show False by linarith
qed

lemma fl_le_pow:
  assumes x: "0 \<le> x" "x \<le> 2 powi k" and k: "- 1022 \<le> k"
  shows "fl x \<le> 2 powi k"
proof (cases "x = 0")
  case True
  then show ?thesis by (simp add: fl_0)
next
  case False
  define e where "e = max (binexp x) (- 1022)"
  define s :: rat where "s = 2 powi (52 - e)"
  have s: "0 < s" by (simp add: s_def)
  have "binexp x \<le> k" using binexp_le[OF False] x by simp
  then have ek: "e \<le> k" using k by (simp add: e_def)
  have "x * s \<le> 2 powi k * s" using x(2) s by simp
  also have "\<dots> = 2 powi (k + (52 - e))" unfolding s_def by (rule power_int_add[symmetric]) simp
  also have "\<dots> = of_int (2 ^ nat (k + (52 - e)))" using ek by (simp add: power_int_nonneg_exp)
  finally have "round_half_even (x * s) \<le> 2 ^ nat (k + (52 - e))"
    using round_half_even_mono[of "x * s" "of_int (2 ^ nat (k + (52 - e)))"]
    by (simp only: round_half_even_of_int)
  then have "(of_int (round_half_even (x * s)) :: rat) \<le> of_int (2 ^ nat (k + (52 - e)))"
    by (simp only: of_int_le_iff)
  also have "\<dots> = 2 powi (k + (52 - e))" using ek by (simp add: power_int_nonneg_exp)
  also have "\<dots> = 2 powi k * s" unfolding s_def by (rule power_int_add) simp
  finally have "of_int (round_half_even (x * s)) / s \<le> 2 powi k"
    using s by (simp add: pos_divide_le_eq)
  then show ?thesis unfolding fl_scaled[OF False] s_def e_def .
qed

lemma fl_ge_pow:
  assumes x: "2 powi k \<le> x" and k: "- 1022 \<le> k"
  shows "2 powi k \<le> fl x"
proof -
  have pos: "0 < x" using x by (rule less_le_trans[rotated]) simp
  then have x0: "x \<noteq> 0" by simp
  define e where "e = max (binexp x) (- 1022)"
  define s :: rat where "s = 2 powi (52 - e)"
  have s: "0 < s" by (simp add: s_def)
  have kb: "k \<le> binexp x" using binexp_ge[OF x0, of k] x pos by simp
  then have e: "e = binexp x" using k by (simp add: e_def)
  have "(2::rat) powi e \<le> x" using binexp_bounds(1)[OF x0] pos by (simp add: e)
  then have "2 powi e * s \<le> x * s" using s by simp
  moreover have "2 powi e * s = 2 powi (e + (52 - e))"
    unfolding s_def by (rule power_int_add[symmetric]) simp
  ultimately have "of_int (2 ^ 52) \<le> x * s" by simp
  from round_half_even_mono[OF this] have "2 ^ 52 \<le> round_half_even (x * s)"
    by (simp only: round_half_even_of_int)
  then have "(of_int (2 ^ 52) :: rat) \<le> of_int (round_half_even (x * s))"
    by (simp only: of_int_le_iff)
  then have "2 powi 52 \<le> (of_int (round_half_even (x * s)) :: rat)" by simp
  moreover have "(2::rat) powi 52 = 2 powi e * s"
  proof -
    have "(2::rat) powi (e + (52 - e)) = 2 powi e * s"
      unfolding s_def by (rule power_int_add) simp
    then show ?thesis by simp
  qed
  ultimately have "2 powi e \<le> of_int (round_half_even (x * s)) / s"
    using s by (simp add: pos_le_divide_eq)
  then have "2 powi e \<le> fl x" unfolding fl_scaled[OF x0] s_def e_def .
  moreover have "(2::rat) powi k \<le> 2 powi e" using kb unfolding e by (rule power_int_increasing) simp
  ultimately show ?thesis by linarith
qed

lemma fl_mono:
  assumes "0 \<le> x" "x \<le> y"
  shows "fl x \<le> fl y"
proof (cases "x = 0")
  case True
  then show ?thesis using fl_nonneg[of y] assms by (simp add: fl_0)
next
  case False
  then have xp: "0 < x" using assms by simp
  then have yp: "0 < y" and y0: "y \<noteq> 0" using assms by simp_all
  define ex where "ex = max (binexp x) (- 1022)"
  define ey where "ey = max (binexp y) (- 1022)"
  have "2 powi binexp x \<le> \<bar>y\<bar>" using binexp_bounds(1)[OF False] xp assms by simp
  from binexp_ge[OF y0 this] have "ex \<le> ey" by (simp add: ex_def ey_def)
  then consider "ex = ey" | "ex < ey" by linarith
  then show ?thesis
  proof cases
    case 1
    define s :: rat where "s = 2 powi (52 - ex)"
    have s: "0 < s" by (simp add: s_def)
    have "x * s \<le> y * s" using assms s by simp
    from round_half_even_mono[OF this]
    have "(of_int (round_half_even (x * s)) :: rat) \<le> of_int (round_half_even (y * s))"
      by (simp only: of_int_le_iff)
    then have "of_int (round_half_even (x * s)) / s \<le> of_int (round_half_even (y * s)) / s"
      using s by (simp add: divide_right_mono)
    then show ?thesis
      unfolding fl_scaled[OF False] fl_scaled[OF y0] ex_def[symmetric] ey_def[symmetric]
        1[symmetric] s_def .
  next
    case 2
    have eyb: "ey = binexp y" using 2 unfolding ex_def ey_def by linarith
    have ge: "- 1022 \<le> ey" unfolding ey_def by simp
    have "x \<le> 2 powi (ex + 1)"
    proof -
      have "x < 2 powi (binexp x + 1)" using binexp_bounds(2)[OF False] xp by simp
      also have "\<dots> \<le> 2 powi (ex + 1)" by (rule power_int_increasing) (simp_all add: ex_def)
      finally show ?thesis by simp
    qed
    then have "fl x \<le> 2 powi (ex + 1)" by (rule fl_le_pow[OF assms(1)]) (simp add: ex_def)
    also have "\<dots> \<le> 2 powi ey" using 2 by (intro power_int_increasing) simp_all
    also have "\<dots> \<le> fl y"
    proof (rule fl_ge_pow[OF _ ge])
      show "2 powi ey \<le> y" using binexp_bounds(1)[OF y0] yp by (simp add: eyb)
    qed
    finally show ?thesis .
  qed
qed

lemma fl_idem:
  assumes "0 \<le> x"
  shows "fl (fl x) = fl x"
proof (cases "fl x = 0")
  case True
  then show ?thesis by (simp add: fl_0)
next
  case False
  then have x0: "x \<noteq> 0" by (auto simp: fl_0)
  then have xp: "0 < x" using assms by simp
  define e where "e = max (binexp x) (- 1022)"
  define s :: rat where "s = 2 powi (52 - e)"
  define K where "K = round_half_even (x * s)"
  define y where "y = fl x"
  have s: "0 < s" by (simp add: s_def)
  have y: "y = of_int K / s" unfolding y_def K_def s_def e_def by (rule fl_scaled[OF x0])
  have y0: "y \<noteq> 0" using False by (simp add: y_def)
  have yp: "0 < y" using fl_nonneg[OF assms] y0 by (simp add: y_def)
  have "x \<le> 2 powi (e + 1)"
  proof -
    have "x < 2 powi (binexp x + 1)" using binexp_bounds(2)[OF x0] xp by simp
    also have "\<dots> \<le> 2 powi (e + 1)" by (rule power_int_increasing) (simp_all add: e_def)
    finally show ?thesis by simp
  qed
  then have yle: "y \<le> 2 powi (e + 1)"
    unfolding y_def by (rule fl_le_pow[OF assms]) (simp add: e_def)
  define e' where "e' = max (binexp y) (- 1022)"
  have "binexp y \<le> e + 1" using binexp_le[OF y0, of "e + 1"] yle yp by simp
  then have e'le: "e' \<le> e + 1" by (simp add: e'_def e_def)
  have "\<exists>m. y * 2 powi (52 - e') = of_int m"
  proof (cases "e' \<le> e")
    case True
    have "y * 2 powi (52 - e') = of_int K * (2 powi (52 - e') / s)" by (simp add: y)
    also have "2 powi (52 - e') / s = 2 powi ((52 - e') - (52 - e))"
      unfolding s_def by (rule power_int_diff[symmetric]) simp
    also have "\<dots> = of_int (2 ^ nat (e - e'))"
      using True by (simp add: power_int_nonneg_exp)
    finally have "y * 2 powi (52 - e') = of_int (K * 2 ^ nat (e - e'))" by simp
    then show ?thesis by blast
  next
    case False
    with e'le have e': "e' = e + 1" by simp
    then have "e' = binexp y" by (simp add: e'_def e_def)
    then have "2 powi (e + 1) \<le> y" using binexp_bounds(1)[OF y0] yp e' by simp
    with yle have "y = 2 powi (e + 1)" by simp
    then have "y * 2 powi (52 - e') = 2 powi (e + 1) * 2 powi (52 - e')" by simp
    also have "\<dots> = 2 powi ((e + 1) + (52 - e'))"
      by (rule power_int_add[symmetric]) simp
    also have "\<dots> = of_int (2 ^ 52)" by (simp add: e')
    finally show ?thesis by blast
  qed
  then obtain m where "y * 2 powi (52 - max (binexp y) (- 1022)) = of_int m"
    unfolding e'_def by blast
  from fl_exact[OF y0 this] show ?thesis by (simp add: y_def)
qed

lemma fl_unit:
  assumes "0 \<le> x" "x \<le> 1"
  shows "0 \<le> fl x" "fl x \<le> 1"
proof -
  show "0 \<le> fl x" by (rule fl_nonneg[OF assms(1)])
  have "x \<le> 2 powi 0" using assms by simp
  from fl_le_pow[OF assms(1) this] show "fl x \<le> 1" by simp
qed

lemma fl_scale_le:
  assumes v: "0 \<le> v" "fl v = v" and c: "0 \<le> c" "c \<le> 1"
  shows "0 \<le> fl (v * c)" "fl (v * c) \<le> v"
proof -
  have nn: "0 \<le> v * c" using v c by simp
  show "0 \<le> fl (v * c)" by (rule fl_nonneg[OF nn])
  have "v * c \<le> v * 1" by (rule mult_left_mono[OF c(2) v(1)])
  then have "v * c \<le> v" by simp
  from fl_mono[OF nn this] show "fl (v * c) \<le> v" by (simp add: v(2))
qed

section \<open>The nearest-colour matcher\<close>

text \<open>
  The invariant of the scan over \<open>enumerate(palette)\<close>: after the entries before index \<open>k\<close>,
  either nothing has been seen yet, or \<open>best_idx\<close> is the first index among them whose
  distance is the least one.
\<close>

lemma nearest_loop_inv:
  assumes "P = pre @ ps" and "k = length pre" and "P \<noteq> []"
    and "(bd = None \<and> k = 0) \<or>
         (\<exists>d. bd = Some d \<and> bi < k \<and> d = sqdist c (snd (P ! bi)) \<and>
            (\<forall>j<k. d \<le> sqdist c (snd (P ! j))) \<and> (\<forall>j<bi. d < sqdist c (snd (P ! j))))"
  shows "(let r = nearest_loop c (enumerate k ps) bi bd in
          r < length P \<and> (\<forall>j<length P. sqdist c (snd (P ! r)) \<le> sqdist c (snd (P ! j))) \<and>
          (\<forall>j<r. sqdist c (snd (P ! r)) < sqdist c (snd (P ! j))))"
  using assms
proof (induction ps arbitrary: pre k bi bd)
  case Nil
  then show ?case by (auto simp: Let_def)
next
  case (Cons x ps)
  obtain name p where x: "x = (name, p)" by (cases x)
  have Pk: "P ! k = x" using Cons.prems by simp
  have P': "P = (pre @ [x]) @ ps" "Suc k = length (pre @ [x])" using Cons.prems by simp_all
  let ?dist = "sqdist c p"
  show ?case
  proof (cases "case bd of None \<Rightarrow> True | Some d \<Rightarrow> ?dist < d")
    case True
    have inv: "(Some ?dist = None \<and> Suc k = 0) \<or>
         (\<exists>d. Some ?dist = Some d \<and> k < Suc k \<and> d = sqdist c (snd (P ! k)) \<and>
            (\<forall>j<Suc k. d \<le> sqdist c (snd (P ! j))) \<and> (\<forall>j<k. d < sqdist c (snd (P ! j))))"
      using Cons.prems(4) True Pk x by (auto simp: less_Suc_eq split: option.splits)
    from Cons.IH[OF P' \<open>P \<noteq> []\<close> inv] True show ?thesis
      by (simp add: x)
  next
    case False
    then obtain d where d: "bd = Some d" "d \<le> ?dist" by (auto split: option.splits)
    have inv: "(bd = None \<and> Suc k = 0) \<or>
         (\<exists>d. bd = Some d \<and> bi < Suc k \<and> d = sqdist c (snd (P ! bi)) \<and>
            (\<forall>j<Suc k. d \<le> sqdist c (snd (P ! j))) \<and> (\<forall>j<bi. d < sqdist c (snd (P ! j))))"
      using Cons.prems(4) d Pk x by (auto simp: less_Suc_eq)
    from Cons.IH[OF P' \<open>P \<noteq> []\<close> inv] False show ?thesis
      by (simp add: x)
  qed
qed

lemma nearest_palette_index_spec:
  assumes "palette \<noteq> []"
  shows "nearest_palette_index c palette < length palette"
    and "j < length palette \<Longrightarrow>
           sqdist c (snd (palette ! nearest_palette_index c palette)) \<le> sqdist c (snd (palette ! j))"
    and "j < nearest_palette_index c palette \<Longrightarrow>
           sqdist c (snd (palette ! nearest_palette_index c palette)) < sqdist c (snd (palette ! j))"
proof -
  have "let r = nearest_loop c (enumerate 0 palette) 0 None in
        r < length palette \<and>
        (\<forall>j<length palette. sqdist c (snd (palette ! r)) \<le> sqdist c (snd (palette ! j))) \<and>
        (\<forall>j<r. sqdist c (snd (palette ! r)) < sqdist c (snd (palette ! j)))"
    by (rule nearest_loop_inv[where pre = "[]"]) (use assms in simp_all)
  then show "nearest_palette_index c palette < length palette"
    and "j < length palette \<Longrightarrow>
           sqdist c (snd (palette ! nearest_palette_index c palette)) \<le> sqdist c (snd (palette ! j))"
    and "j < nearest_palette_index c palette \<Longrightarrow>
           sqdist c (snd (palette ! nearest_palette_index c palette)) < sqdist c (snd (palette ! j))"
    by (simp_all add: nearest_palette_index_def Let_def)
qed

text \<open>
  Claim C3. For every RGB triple and every non-empty palette, \<open>nearest_palette_index\<close>
  returns the index of an entry of minimal squared Euclidean distance, and among the
  entries that attain the minimum the lowest index. For the palette
  \<open>[("a", (0,0,0)), ("b", (0,0,0))]\<close> and the pixel \<open>(0,0,0)\<close> it returns \<open>0\<close>.
\<close>

theorem nearest_palette_index_min_first:
  "(palette \<noteq> [] \<longrightarrow>
      nearest_palette_index c palette < length palette \<and>
      (\<forall>j<length palette. sqdist c (snd (palette ! nearest_palette_index c palette))
                             \<le> sqdist c (snd (palette ! j))) \<and>
      (\<forall>j<length palette. sqdist c (snd (palette ! j))
                              = sqdist c (snd (palette ! nearest_palette_index c palette))
                            \<longrightarrow> nearest_palette_index c palette \<le> j)) \<and>
   nearest_palette_index (0, 0, 0) [(''a'', (0, 0, 0)), (''b'', (0, 0, 0))] = 0"
proof -
  have ex: "nearest_palette_index (0, 0, 0) [(''a'', (0, 0, 0)), (''b'', (0, 0, 0))] = 0"
    by (simp add: nearest_palette_index_def enumerate_eq_zip sqdist_def upt_rec)
  have tie: "nearest_palette_index c palette \<le> j"
    if "palette \<noteq> []"
      and "sqdist c (snd (palette ! j)) = sqdist c (snd (palette ! nearest_palette_index c palette))"
    for j
    using nearest_palette_index_spec(3)[OF that(1), of j c] that(2) by (cases "j < nearest_palette_index c palette") simp_all
  from ex tie nearest_palette_index_spec(1,2) show ?thesis by blast
qed

theorem nearest_palette_index_min_first_witness:
  "[(''a'', (0, 0, 0)), (''b'', (0::int, 0::int, 0::int))] \<noteq> [] \<and>
   nearest_palette_index (0, 0, 0) [(''a'', (0, 0, 0)), (''b'', (0, 0, 0))]
     < length [(''a'', (0, 0, 0)), (''b'', (0::int, 0::int, 0::int))] \<and>
   nearest_palette_index (0, 0, 0) [(''a'', (0, 0, 0)), (''b'', (0, 0, 0))] = 0"
  using nearest_palette_index_min_first [of "[(''a'', (0, 0, 0)), (''b'', (0, 0, 0))]" "(0, 0, 0)"]
  by simp

section \<open>The fixed palette\<close>

text \<open>
  Claim C4. \<open>palette_for_size N\<close> returns the first \<open>N\<close> entries of the 32-entry catalogue
  in their order when \<open>N\<close> is 16 or 32, and fails with the argument error (Python's
  \<open>ValueError\<close>) for every other \<open>N\<close>, for example 17.
\<close>

theorem palette_for_size_first_entries:
  "(N = 16 \<or> N = 32 \<longrightarrow>
      palette_for_size N = Inr (take (nat N) GAME_PALETTE_32) \<and>
      length (take (nat N) GAME_PALETTE_32) = nat N) \<and>
   (N \<noteq> 16 \<and> N \<noteq> 32 \<longrightarrow>
      palette_for_size N = Inl (ValueError ''palette-size must be 16 or 32'')) \<and>
   length GAME_PALETTE_32 = 32 \<and>
   palette_for_size 17 = Inl (ValueError ''palette-size must be 16 or 32'')"
  by (auto simp: palette_for_size_def GAME_PALETTE_32_def)

theorem palette_for_size_first_entries_witness:
  "palette_for_size 16 = Inr
     [(''red'', (230, 57, 70)), (''orange'', (244, 162, 97)), (''yellow'', (233, 196, 106)),
      (''green'', (76, 175, 80)), (''teal'', (42, 157, 143)), (''brown'', (141, 110, 99)),
      (''charcoal'', (47, 47, 47)), (''lightgray'', (176, 190, 197)), (''sky'', (33, 150, 243)),
      (''indigo'', (63, 81, 181)), (''violet'', (156, 39, 176)), (''magenta'', (233, 30, 99)),
      (''coral'', (255, 112, 67)), (''gold'', (255, 235, 59)), (''seafoam'', (0, 150, 136)),
      (''umber'', (121, 85, 72))] \<and>
   palette_for_size 8 = Inl (ValueError ''palette-size must be 16 or 32'')"
  using palette_for_size_first_entries [of 16] palette_for_size_first_entries [of 8]
  by (simp add: GAME_PALETTE_32_def)

section \<open>Rows of the grid\<close>

lemma chunked_loop_concat:
  "chunked_loop vs w row rows = (row', rows') \<Longrightarrow> concat rows' @ row' = concat rows @ row @ vs"
  by (induction vs arbitrary: row rows) (auto simp: Let_def split: if_splits)

lemma chunked_loop_lengths:
  "chunked_loop vs w row rows = (row', rows') \<Longrightarrow> 1 \<le> w \<Longrightarrow> int (length row) < w \<Longrightarrow>
   \<forall>r\<in>set rows. int (length r) = w \<Longrightarrow>
   int (length row') < w \<and> (\<forall>r\<in>set rows'. int (length r) = w)"
proof (induction vs arbitrary: row rows)
  case Nil
  then show ?case by simp
next
  case (Cons v vs)
  show ?case
  proof (cases "int (length (row @ [v])) = w")
    case True
    with Cons.prems(1) have eq: "chunked_loop vs w [] (rows @ [row @ [v]]) = (row', rows')"
      by (simp add: Let_def)
    have all: "\<forall>r\<in>set (rows @ [row @ [v]]). int (length r) = w"
      using True Cons.prems(4) by auto
    have lt: "int (length ([]::int list)) < w" using Cons.prems(2) by simp
    show ?thesis by (rule Cons.IH[OF eq Cons.prems(2) lt all])
  next
    case False
    with Cons.prems(1) have eq: "chunked_loop vs w (row @ [v]) rows = (row', rows')"
      by (simp add: Let_def)
    have lt: "int (length (row @ [v])) < w" using False Cons.prems(3) by simp
    show ?thesis by (rule Cons.IH[OF eq Cons.prems(2) lt Cons.prems(4)])
  qed
qed

lemma concat_chunked: "concat (chunked values w) = values"
proof -
  obtain row rows where l: "chunked_loop values w [] [] = (row, rows)"
    by (cases "chunked_loop values w [] []")
  from chunked_loop_concat[OF l] have "concat rows @ row = values" by simp
  with l show ?thesis by (auto simp: chunked_def)
qed

lemma length_concat_uniform:
  "\<forall>r\<in>set rows. length r = n \<Longrightarrow> length (concat rows) = length rows * n"
  by (induction rows) auto

lemma chunked_loop_shape:
  assumes l: "chunked_loop values w [] [] = (row, rows)" and w: "1 \<le> w"
  shows "\<forall>r\<in>set rows. length r = nat w"
    and "length rows = length values div nat w"
    and "length row = length values mod nat w"
    and "concat rows @ row = values"
proof -
  from chunked_loop_concat[OF l] show c: "concat rows @ row = values" by simp
  have "int (length ([]::int list)) < w" "\<forall>r\<in>set ([]::int list list). int (length r) = w"
    using w by simp_all
  from chunked_loop_lengths[OF l w this]
  have lr: "int (length row) < w" and la: "\<forall>r\<in>set rows. int (length r) = w" by blast+
  from la show la': "\<forall>r\<in>set rows. length r = nat w" by auto
  have rl: "length row < nat w" using lr by simp
  have "length (concat rows @ row) = length rows * nat w + length row"
    using length_concat_uniform[OF la'] by simp
  then have eq: "length values = length rows * nat w + length row" using c by simp
  show "length rows = length values div nat w" unfolding eq using rl by simp
  show "length row = length values mod nat w" unfolding eq using rl by simp
qed

lemma ceiling_div_nat:
  fixes n k :: nat
  assumes "0 < k"
  shows "\<lceil>rat_of_nat n / rat_of_nat k\<rceil> = int (n div k + (if n mod k = 0 then 0 else 1))"
proof -
  have n: "n = k * (n div k) + n mod k" by simp
  have kpos: "0 < rat_of_nat k" using assms by simp
  have q: "rat_of_nat n / rat_of_nat k = rat_of_nat (n div k) + rat_of_nat (n mod k) / rat_of_nat k"
  proof -
    have "rat_of_nat n = rat_of_nat k * rat_of_nat (n div k) + rat_of_nat (n mod k)"
      by (metis n of_nat_add of_nat_mult)
    then show ?thesis using kpos by (simp add: field_simps)
  qed
  show ?thesis
  proof (cases "n mod k = 0")
    case True
    then show ?thesis using q by simp
  next
    case False
    have lt: "rat_of_nat (n mod k) / rat_of_nat k < 1" using assms by simp
    have gt: "0 < rat_of_nat (n mod k) / rat_of_nat k" using False assms by simp
    have "\<lceil>rat_of_nat (n div k) + rat_of_nat (n mod k) / rat_of_nat k\<rceil> = int (n div k) + 1"
      by (rule ceiling_unique) (use lt gt in simp_all)
    then show ?thesis using q False by simp
  qed
qed

lemma chunked_cases:
  assumes w: "1 \<le> w"
  obtains rows where "length values mod nat w = 0" "chunked values w = rows"
      "\<forall>r\<in>set rows. length r = nat w" "length rows = length values div nat w"
  | row rows where "length values mod nat w \<noteq> 0" "chunked values w = rows @ [row]"
      "\<forall>r\<in>set rows. length r = nat w" "length rows = length values div nat w"
      "length row = length values mod nat w" "concat rows @ row = values"
proof -
  obtain row rows where l: "chunked_loop values w [] [] = (row, rows)"
    by (cases "chunked_loop values w [] []")
  note sh = chunked_loop_shape[OF l w]
  show ?thesis
  proof (cases "row = []")
    case True
    then have m: "length values mod nat w = 0" using sh(3) by simp
    have c: "chunked values w = rows" using l True by (simp add: chunked_def)
    show ?thesis by (rule that(1)[OF m c sh(1) sh(2)])
  next
    case False
    then have m: "length values mod nat w \<noteq> 0" using sh(3) by (metis length_0_conv)
    have c: "chunked values w = rows @ [row]" using l False by (simp add: chunked_def)
    show ?thesis by (rule that(2)[OF m c sh(1) sh(2) sh(3) sh(4)])
  qed
qed

lemma concat_uniform_nth:
  "\<forall>r\<in>set rows. length r = n \<Longrightarrow> 0 < n \<Longrightarrow> i < length rows * n \<Longrightarrow>
   concat rows ! i = rows ! (i div n) ! (i mod n)"
proof (induction rows arbitrary: i)
  case Nil
  then show ?case by simp
next
  case (Cons r rows)
  show ?case
  proof (cases "i < n")
    case True
    then show ?thesis using Cons.prems(1) by (simp add: nth_append)
  next
    case False
    then have ge: "n \<le> i" by simp
    have lt: "i - n < length rows * n" using Cons.prems(3) ge by simp
    have all: "\<forall>r\<in>set rows. length r = n" using Cons.prems(1) by simp
    have d: "i div n = Suc ((i - n) div n)" using ge Cons.prems(2) by (simp add: le_div_geq)
    have m: "i mod n = (i - n) mod n" using ge by (simp add: le_mod_geq)
    have "concat (r # rows) ! i = concat rows ! (i - n)"
      using False Cons.prems(1) by (simp add: nth_append)
    also have "\<dots> = rows ! ((i - n) div n) ! ((i - n) mod n)"
      by (rule Cons.IH[OF all Cons.prems(2) lt])
    finally show ?thesis by (simp add: d m)
  qed
qed

lemma chunked_nth:
  assumes w: "1 \<le> w" and i: "i < length values"
  shows "chunked values w ! (i div nat w) ! (i mod nat w) = values ! i"
proof -
  have wpos: "0 < nat w" using w by simp
  show ?thesis
  proof (cases rule: chunked_cases[OF w, of "values"])
    case (1 rows)
    have c: "concat rows = values" using concat_chunked[of "values" w] 1(2) by simp
    have "length values = length rows * nat w"
      using length_concat_uniform[OF 1(3)] c by simp
    then have "i < length rows * nat w" using i by simp
    from concat_uniform_nth[OF 1(3) wpos this] show ?thesis using c 1(2) by simp
  next
    case (2 row rows)
    have lc: "length (concat rows) = length rows * nat w"
      by (rule length_concat_uniform[OF 2(3)])
    show ?thesis
    proof (cases "i < length rows * nat w")
      case True
      then have dl: "i div nat w < length rows" using wpos
        by (simp add: less_mult_imp_div_less)
      have "values ! i = concat rows ! i" using 2(6) True lc by (metis nth_append)
      also have "\<dots> = rows ! (i div nat w) ! (i mod nat w)"
        by (rule concat_uniform_nth[OF 2(3) wpos True])
      finally show ?thesis using 2(2) dl by (simp add: nth_append)
    next
      case False
      then have ge: "length rows * nat w \<le> i" by simp
      have len: "length values = length rows * nat w + length row"
        using 2(6) lc by (metis length_append)
      have rl: "length row < nat w" using 2(5) wpos by simp
      have ilt: "i - length rows * nat w < nat w" using i len rl by simp
      have ieq: "i = length rows * nat w + (i - length rows * nat w)" using ge by simp
      have d: "i div nat w = length rows"
        by (subst ieq) (use ilt in simp)
      have m: "i mod nat w = i - length rows * nat w"
        by (subst ieq) (use ilt in simp)
      have "values ! i = row ! (i - length rows * nat w)"
        using 2(6) False lc by (metis nth_append)
      then show ?thesis using 2(2) d m by (simp add: nth_append)
    qed
  qed
qed


text \<open>
  Claim C9. For every list of values and every width (so for every width \<open>\<ge> 1\<close>),
  concatenating the rows of \<open>chunked values width\<close> in order gives back the list:
  chunking loses, duplicates and reorders nothing.
\<close>

theorem chunked_concat: "concat (chunked values w) = values"
  by (rule concat_chunked)

text \<open>
  Claim C7. For a width \<open>\<ge> 1\<close> the grid built by chunking has \<open>ceil(n / width)\<close> rows for
  \<open>n\<close> values, every row but the last has exactly \<open>width\<close> entries, and what is left over at
  the end is the last, shorter row: neither dropped nor padded. For \<open>n = width * height\<close>
  these are \<open>height\<close> rows, which is \<open>ceil(width * height / width)\<close>, all of length \<open>width\<close>.
\<close>

theorem chunked_rows:
  "1 \<le> w \<Longrightarrow>
   int (length (chunked values w)) = \<lceil>rat_of_nat (length values) / rat_of_int w\<rceil> \<and>
   (\<forall>i. Suc i < length (chunked values w) \<longrightarrow> int (length (chunked values w ! i)) = w) \<and>
   (chunked values w \<noteq> [] \<longrightarrow>
      length (last (chunked values w)) =
        (if length values mod nat w = 0 then nat w else length values mod nat w)) \<and>
   (length values mod nat w \<noteq> 0 \<longrightarrow>
      last (chunked values w) = drop (length values - length values mod nat w) values) \<and>
   (int (length values) = w * h \<longrightarrow>
      int (length (chunked values w)) = h \<and> (\<forall>row\<in>set (chunked values w). int (length row) = w))"
proof -
  assume w: "1 \<le> w"
  then have wpos: "0 < nat w" by simp
  have wr: "rat_of_int w = rat_of_nat (nat w)" using w by simp
  have ceil: "\<lceil>rat_of_nat (length values) / rat_of_int w\<rceil> =
      int (length values div nat w + (if length values mod nat w = 0 then 0 else 1))"
    unfolding wr by (rule ceiling_div_nat[OF wpos])
  have hdiv: "length values div nat w = nat h \<and> length values mod nat w = 0 \<and> 0 \<le> h"
    if "int (length values) = w * h"
  proof -
    have h0: "0 \<le> h"
    proof (rule ccontr)
      assume "\<not> 0 \<le> h"
      then have "w * h < 0" using w by (simp add: mult_less_0_iff)
      with that show False by simp
    qed
    then have "int (length values) = int (nat w * nat h)" using that w by simp
    then have "length values = nat w * nat h" by (simp only: of_nat_eq_iff)
    then show ?thesis using wpos h0 by simp
  qed
  show ?thesis
  proof (cases rule: chunked_cases[OF w, of "values"])
    case (1 rows)
    have a: "int (length (chunked values w)) = \<lceil>rat_of_nat (length values) / rat_of_int w\<rceil>"
      using 1 ceil by simp
    have b: "\<forall>i. Suc i < length (chunked values w) \<longrightarrow> int (length (chunked values w ! i)) = w"
      using 1 w by simp
    have c: "chunked values w \<noteq> [] \<longrightarrow> length (last (chunked values w)) =
        (if length values mod nat w = 0 then nat w else length values mod nat w)"
      using 1 by simp
    have e: "int (length values) = w * h \<longrightarrow>
      int (length (chunked values w)) = h \<and> (\<forall>row\<in>set (chunked values w). int (length row) = w)"
      using 1 w hdiv by auto
    from a b c e 1(1) show ?thesis by blast
  next
    case (2 row rows)
    have a: "int (length (chunked values w)) = \<lceil>rat_of_nat (length values) / rat_of_int w\<rceil>"
      using 2 ceil by simp
    have b: "\<forall>i. Suc i < length (chunked values w) \<longrightarrow> int (length (chunked values w ! i)) = w"
      using 2 w by (simp add: nth_append)
    have c: "chunked values w \<noteq> [] \<longrightarrow> length (last (chunked values w)) =
        (if length values mod nat w = 0 then nat w else length values mod nat w)"
      using 2 by simp
    have "length (concat rows) = length values - length values mod nat w"
      using 2(5,6) by (metis add_diff_cancel_right' length_append)
    then have "drop (length values - length values mod nat w) values = row"
      using 2(6) by (metis append_eq_conv_conj)
    then have d: "length values mod nat w \<noteq> 0 \<longrightarrow>
      last (chunked values w) = drop (length values - length values mod nat w) values"
      using 2(2) by simp
    have e: "int (length values) = w * h \<longrightarrow>
      int (length (chunked values w)) = h \<and> (\<forall>row\<in>set (chunked values w). int (length row) = w)"
      using 2(1) hdiv by auto
    from a b c d e show ?thesis by blast
  qed
qed

theorem chunked_rows_witness:
  "(1::int) \<le> 2 \<and> chunked [5, 6, 7] 2 = [[5, 6], [7]] \<and>
   int (length (chunked [5, 6, 7] 2)) = \<lceil>rat_of_nat (length [5, 6, 7 :: int]) / rat_of_int 2\<rceil> \<and>
   last (chunked [5, 6, 7] 2) = drop (length [5, 6, 7 :: int] - length [5, 6, 7 :: int] mod nat 2) [5, 6, 7]"
  using chunked_rows [of 2 "[5, 6, 7]" 0] by (simp add: chunked_def)

section \<open>Flattening over white\<close>

text \<open>
  The rounding errors of the five operations of one channel add up to less than
  \<open>513 / 2 ^ 44\<close>, far below the distance \<open>1 / 255\<close> between two possible exact blends.
\<close>

lemma blend_error:
  fixes A C :: rat
  assumes A: "0 \<le> A" "A \<le> 255" and C: "0 \<le> C" "C \<le> 255"
  shows "\<bar>fl (fl (C * fl (A / 255)) + fl (255 * fl (1 - fl (A / 255))))
          - (C * (A / 255) + 255 * (1 - A / 255))\<bar> \<le> 513 / 2 ^ 44"
proof -
  define d :: rat where "d = 1 / 2 ^ 44"
  have d: "0 < d" "d < 1 / 1000" by (simp_all add: d_def)
  define alpha where "alpha = fl (A / 255)"
  define p where "p = fl (C * alpha)"
  define q where "q = fl (1 - alpha)"
  define s where "s = fl (255 * q)"
  define t where "t = fl (p + s)"
  have "\<bar>A / 255\<bar> < 1024" using A by simp
  from fl_err10[OF this] have e1: "\<bar>alpha - A / 255\<bar> \<le> d" by (simp add: alpha_def d_def)
  have al: "- d \<le> alpha" "alpha \<le> 1 + d" using e1 A by (simp_all add: abs_le_iff)
  have Ca: "\<bar>C * alpha\<bar> \<le> 255 * (1 + d)"
  proof -
    have "\<bar>alpha\<bar> \<le> 1 + d" using al d by (simp add: abs_le_iff)
    then have "\<bar>C\<bar> * \<bar>alpha\<bar> \<le> 255 * (1 + d)"
      by (intro mult_mono) (use C d in simp_all)
    then show ?thesis by (simp add: abs_mult)
  qed
  have "255 * (1 + d) < 1024" using d by simp
  with Ca have "\<bar>C * alpha\<bar> < 1024" by (rule le_less_trans)
  from fl_err10[OF this] have e2: "\<bar>p - C * alpha\<bar> \<le> d" by (simp add: p_def d_def)
  have "\<bar>1 - alpha\<bar> < 1024" using al d by (simp add: abs_less_iff)
  from fl_err10[OF this] have e3: "\<bar>q - (1 - alpha)\<bar> \<le> d" by (simp add: q_def d_def)
  have qb: "\<bar>q\<bar> \<le> 1 + 2 * d" using e3 al d by (simp add: abs_le_iff)
  then have "\<bar>255 * q\<bar> < 1024" using d by (simp add: abs_mult)
  from fl_err10[OF this] have e4: "\<bar>s - 255 * q\<bar> \<le> d" by (simp add: s_def d_def)
  have pb: "\<bar>p\<bar> \<le> 255 * (1 + d) + d"
  proof -
    have "\<bar>p\<bar> \<le> \<bar>p - C * alpha\<bar> + \<bar>C * alpha\<bar>" by (rule abs_triangle_ineq4[of p "C * alpha", simplified] | simp)
    with e2 Ca show ?thesis by simp
  qed
  have sb: "\<bar>s\<bar> \<le> 255 * (1 + 2 * d) + d" using e4 qb by (simp add: abs_le_iff)
  have "\<bar>p + s\<bar> \<le> \<bar>p\<bar> + \<bar>s\<bar>" by (rule abs_triangle_ineq)
  with pb sb d have "\<bar>p + s\<bar> < 1024" by simp
  from fl_err10[OF this] have e5: "\<bar>t - (p + s)\<bar> \<le> d" by (simp add: t_def d_def)
  have e6: "\<bar>(C - 255) * (alpha - A / 255)\<bar> \<le> 255 * d"
  proof -
    have "\<bar>C - 255\<bar> \<le> 255" using C by (simp add: abs_le_iff)
    then have "\<bar>C - 255\<bar> * \<bar>alpha - A / 255\<bar> \<le> 255 * d"
      by (intro mult_mono e1) simp_all
    then show ?thesis by (simp add: abs_mult)
  qed
  have "t - (C * (A / 255) + 255 * (1 - A / 255)) =
        (t - (p + s)) + (p - C * alpha) + (s - 255 * q) + 255 * (q - (1 - alpha))
        + (C - 255) * (alpha - A / 255)"
    by (simp add: field_simps)
  moreover have "\<bar>255 * (q - (1 - alpha))\<bar> \<le> 255 * d" using e3 by (simp add: abs_mult)
  ultimately have "\<bar>t - (C * (A / 255) + 255 * (1 - A / 255))\<bar> \<le> 513 * d"
    using e5 e2 e4 e6 by linarith
  then show ?thesis by (simp add: t_def s_def q_def p_def alpha_def d_def)
qed

lemma flatten_channel_byte:
  assumes a: "0 \<le> a" "a \<le> 255" and c: "0 \<le> c" "c \<le> 255"
  defines "v \<equiv> flatten_channel c (fdiv (float_of_int a) 255)"
  defines "B \<equiv> blend_over_white c a"
  shows "of_int v \<le> B" and "B \<le> of_int v + 1" and "0 \<le> v"
proof -
  define t where "t = fl (fl (of_int c * fl (of_int a / 255)) + fl (255 * fl (1 - fl (of_int a / 255))))"
  define k where "k = c * a + 255 * (255 - a)"
  have v: "v = py_int t"
    by (simp add: v_def flatten_channel_def fdiv_def fmul_def fadd_def fsub_def t_def
        float_of_int_byte[OF a] float_of_int_byte[OF c])
  have kB: "255 * B = of_int k"
    by (simp add: B_def blend_over_white_def k_def algebra_simps)
  have k0: "0 \<le> k"
  proof -
    have "0 \<le> c * a" using a c by simp
    moreover have "0 \<le> 255 * (255 - a)" using a by simp
    ultimately show ?thesis unfolding k_def by linarith
  qed
  define eta :: rat where "eta = 513 / 2 ^ 44"
  have err: "\<bar>t - B\<bar> \<le> eta"
    unfolding t_def B_def blend_over_white_def eta_def
    by (rule blend_error) (use a c in simp_all)
  have eta: "255 * eta < 1" by (simp add: eta_def)
  have tB: "t \<le> B + eta" "B \<le> t + eta" using err by linarith+
  show "of_int v \<le> B" and "B \<le> of_int v + 1" and "0 \<le> v"
  proof -
    have "of_int v \<le> B \<and> B \<le> of_int v + 1 \<and> 0 \<le> v"
    proof (cases "0 \<le> t")
      case True
      then have vf: "v = \<lfloor>t\<rfloor>" by (simp add: v py_int_def)
      have vt: "of_int v \<le> t" "t < of_int v + 1" unfolding vf by linarith+
      have lo: "of_int v \<le> B"
      proof (rule ccontr)
        assume "\<not> of_int v \<le> B"
        then have "255 * B < 255 * of_int v" by simp
        then have "(of_int k :: rat) < of_int (255 * v)" by (simp add: kB)
        then have "k < 255 * v" by (simp only: of_int_less_iff)
        then have "k + 1 \<le> 255 * v" by simp
        then have "(of_int (k + 1) :: rat) \<le> of_int (255 * v)" by (simp only: of_int_le_iff)
        then have "255 * B + 1 \<le> 255 * of_int v" by (simp add: kB)
        with vt(1) tB(1) eta show False by linarith
      qed
      have hi: "B \<le> of_int v + 1"
      proof -
        have "255 * B < 255 * of_int v + 256" using vt(2) tB(2) eta by linarith
        then have "(of_int k :: rat) < of_int (255 * v + 256)" by (simp add: kB)
        then have "k < 255 * v + 256" by (simp only: of_int_less_iff)
        then have "k \<le> 255 * v + 255" by simp
        then have "(of_int k :: rat) \<le> of_int (255 * v + 255)" by (simp only: of_int_le_iff)
        then have "255 * B \<le> 255 * of_int v + 255" by (simp add: kB)
        then show ?thesis by simp
      qed
      have "0 \<le> v" using True by (simp add: vf)
      with lo hi show ?thesis by simp
    next
      case False
      then have t0: "t < 0" by simp
      then have vc: "v = \<lceil>t\<rceil>" by (simp add: v py_int_def)
      have "255 * B < 1" using t0 tB(2) eta by linarith
      then have "(of_int k :: rat) < of_int 1" by (simp add: kB)
      then have "k < 1" by (simp only: of_int_less_iff)
      with k0 have "k = 0" by simp
      then have B0: "B = 0" using kB by simp
      have "- 1 < t" using tB(2) B0 eta by linarith
      with t0 have "\<lceil>t\<rceil> = 0" by (intro ceiling_unique) simp_all
      then have "v = 0" by (simp add: vc)
      with B0 show ?thesis by simp
    qed
    then show "of_int v \<le> B" and "B \<le> of_int v + 1" and "0 \<le> v" by simp_all
  qed
qed

text \<open>An opaque pixel keeps its colour.\<close>

lemma flattened_rgb_opaque:
  assumes "0 \<le> r" "r \<le> 255" "0 \<le> g" "g \<le> 255" "0 \<le> b" "b \<le> 255"
  shows "flattened_rgb (r, g, b, 255) = (r, g, b)"
proof -
  have one: "fl 1 = 1" using fl_of_int[of 1] by simp
  have alpha: "fdiv (float_of_int 255) 255 = 1"
    by (simp add: fdiv_def float_of_int_byte one)
  have ch: "flatten_channel c 1 = c" if "0 \<le> c" "c \<le> 255" for c
  proof -
    have "\<bar>c\<bar> < 2 ^ 53" using that by simp
    then have "fl (of_int c) = of_int c" by (rule fl_of_int)
    then show ?thesis using that
      by (simp add: flatten_channel_def fmul_def fsub_def fadd_def fl_0 float_of_int_byte py_int_def)
  qed
  show ?thesis using assms by (simp add: flattened_rgb_def alpha ch)
qed

lemma flatten_channel_1_128: "flatten_channel 1 (fdiv (float_of_int 128) 255) = 127"
  by code_simp

text \<open>
  The doubles can fall just below a blend that is a whole number: at channel 0 and alpha
  43 the exact blend is 212 and the result is 211.
\<close>

lemma flatten_channel_0_43:
  "flatten_channel 0 (fdiv (float_of_int 43) 255) = 211" and "blend_over_white 0 43 = 212"
  by code_simp+

text \<open>
  Claim C1, as the code has it. For every RGBA pixel of 8-bit channels whose alpha \<open>a\<close> is
  at or above the threshold, the colour that is matched is \<open>flattened_rgb\<close> of the pixel,
  per channel \<open>int(channel * \<alpha> + 255 * (1 - \<alpha>))\<close> with \<open>\<alpha> = a / 255.0\<close>: the blend over
  white computed in doubles and truncated toward zero, not rounded to the nearest integer.
  The result \<open>v\<close> is in \<open>0..255\<close> and satisfies \<open>v \<le> blend \<le> v + 1\<close> for the exact blend: it
  is the blend rounded down, or one less than a blend that is a whole number.
\<close>

theorem flattened_rgb_truncates:
  "0 \<le> a \<Longrightarrow> a \<le> 255 \<Longrightarrow> t \<le> a \<Longrightarrow>
   0 \<le> r \<and> r \<le> 255 \<and> 0 \<le> g \<and> g \<le> 255 \<and> 0 \<le> b \<and> b \<le> 255 \<Longrightarrow>
   map_pixels t palette [(r, g, b, a)] =
     [int (nearest_palette_index (flattened_rgb (r, g, b, a)) palette)] \<and>
   (\<exists>vr vg vb. flattened_rgb (r, g, b, a) = (vr, vg, vb) \<and>
      0 \<le> vr \<and> of_int vr \<le> blend_over_white r a \<and> blend_over_white r a \<le> of_int vr + 1 \<and>
      0 \<le> vg \<and> of_int vg \<le> blend_over_white g a \<and> blend_over_white g a \<le> of_int vg + 1 \<and>
      0 \<le> vb \<and> of_int vb \<le> blend_over_white b a \<and> blend_over_white b a \<le> of_int vb + 1)"
proof -
  assume a: "0 \<le> a" "a \<le> 255" and t: "t \<le> a"
    and c: "0 \<le> r \<and> r \<le> 255 \<and> 0 \<le> g \<and> g \<le> 255 \<and> 0 \<le> b \<and> b \<le> 255"
  have m: "map_pixels t palette [(r, g, b, a)] =
     [int (nearest_palette_index (flattened_rgb (r, g, b, a)) palette)]"
    using t by simp
  have f: "flattened_rgb (r, g, b, a) =
      (flatten_channel r (fdiv (float_of_int a) 255), flatten_channel g (fdiv (float_of_int a) 255),
       flatten_channel b (fdiv (float_of_int a) 255))"
    by (simp add: flattened_rgb_def Let_def)
  note R = flatten_channel_byte[OF a, of r] and G = flatten_channel_byte[OF a, of g]
    and B = flatten_channel_byte[OF a, of b]
  show ?thesis using m f R G B c by simp
qed

theorem flattened_rgb_truncates_witness:
  "(0::int) \<le> 128 \<and> (128::int) \<le> 255 \<and> (40::int) \<le> 128 \<and>
   map_pixels 40 GAME_PALETTE_32 [(1, 1, 1, 128)] =
     [int (nearest_palette_index (flattened_rgb (1, 1, 1, 128)) GAME_PALETTE_32)] \<and>
   (\<exists>vr vg vb. flattened_rgb (1, 1, 1, 128) = (vr, vg, vb) \<and>
      0 \<le> vr \<and> of_int vr \<le> blend_over_white 1 128 \<and> blend_over_white 1 128 \<le> of_int vr + 1 \<and>
      0 \<le> vg \<and> of_int vg \<le> blend_over_white 1 128 \<and> blend_over_white 1 128 \<le> of_int vg + 1 \<and>
      0 \<le> vb \<and> of_int vb \<le> blend_over_white 1 128 \<and> blend_over_white 1 128 \<le> of_int vb + 1)"
  using flattened_rgb_truncates [of 128 40 1 1 1 GAME_PALETTE_32] by simp

text \<open>
  The claim as stated, with rounding to the nearest integer, fails at the pixel
  \<open>(1, 1, 1, 128)\<close>: the exact blend is \<open>127 + 128/255\<close>, which rounds to 128, and the code
  yields 127.
\<close>

theorem flattened_rgb_round_counterexample:
  "(40::int) \<le> 128 \<and> flattened_rgb (1, 1, 1, 128) = (127, 127, 127) \<and>
   blend_over_white 1 128 = 127 + 128 / 255 \<and> round (blend_over_white 1 128) = 128"
proof -
  have "round (127 + 128 / 255 :: rat) = 128"
    unfolding round_def by (rule floor_unique) simp_all
  then show ?thesis by (simp add: flattened_rgb_def flatten_channel_1_128 blend_over_white_def)
qed


section \<open>The index grid\<close>

lemma length_map_pixels: "length (map_pixels t palette pixels_rgba) = length pixels_rgba"
  by (induction pixels_rgba rule: map_pixels.induct) simp_all

lemma map_pixels_nth:
  "i < length pixels_rgba \<Longrightarrow> pixels_rgba ! i = (r, g, b, a) \<Longrightarrow>
   map_pixels t palette pixels_rgba ! i =
     (if a < t then - 1 else int (nearest_palette_index (flattened_rgb (r, g, b, a)) palette))"
proof (induction t palette pixels_rgba arbitrary: i rule: map_pixels.induct)
  case (1 t palette)
  then show ?case by simp
next
  case (2 t palette r' g' b' a' pixels_rgba)
  then show ?case by (cases i) auto
qed

lemma map_pixels_eq_map:
  "map_pixels t palette pixels_rgba =
     map (\<lambda>(r, g, b, a). if a < t then - 1
            else int (nearest_palette_index (flattened_rgb (r, g, b, a)) palette)) pixels_rgba"
  by (induction t palette pixels_rgba rule: map_pixels.induct) simp_all

lemma solid_pixels_eq_filter:
  "solid_pixels t pixels_rgba =
     map (\<lambda>(r, g, b, a). (r, g, b)) (filter (\<lambda>(r, g, b, a). t \<le> a) pixels_rgba)"
  by (induction t pixels_rgba rule: solid_pixels.induct) simp_all

lemma length_tonal_palette: "length (tonal_palette_from_pixels L pixels n) = nat n"
  by (simp add: tonal_palette_from_pixels_def tone_values_def Let_def split_def)

lemma main_palette_nonempty: "main_palette L args solid = Inr palette \<Longrightarrow> palette \<noteq> []"
proof (cases "arg_mode args = Fixed")
  case True
  assume "main_palette L args solid = Inr palette"
  with True have "palette = take 16 GAME_PALETTE_32 \<or> palette = take 32 GAME_PALETTE_32"
    by (auto simp: main_palette_def palette_for_size_def split: if_splits)
  then show ?thesis by (auto simp: GAME_PALETTE_32_def)
next
  case False
  assume "main_palette L args solid = Inr palette"
  with False have "length palette = nat (max 2 (arg_buckets args))"
    by (auto simp: main_palette_def length_tonal_palette)
  then show ?thesis by auto
qed

lemma main_core_Inr:
  assumes "main_core L args pixels_rgba = Inr out"
  shows "main_palette L args (solid_pixels (arg_alpha_threshold args) pixels_rgba) = Inr (out_palette out)"
    and "out_mapped out = map_pixels (arg_alpha_threshold args) (out_palette out) pixels_rgba"
    and "out_rows out = chunked (out_mapped out) (arg_width args)"
  using assms by (auto simp: main_core_def Let_def split: sum.splits)

lemma nearest_palette_index_less:
  "palette \<noteq> [] \<Longrightarrow> nearest_palette_index c palette < length palette"
  by (rule nearest_palette_index_spec(1))

lemma map_pixels_bounds:
  assumes "palette \<noteq> []" and "v \<in> set (map_pixels t palette pixels_rgba)"
  shows "v = - 1 \<or> (0 \<le> v \<and> v < int (length palette))"
proof -
  from assms(2) obtain r g b a where
    "v = (if a < t then - 1 else int (nearest_palette_index (flattened_rgb (r, g, b, a)) palette))"
    by (auto simp: map_pixels_eq_map)
  then show ?thesis
    using nearest_palette_index_less[OF assms(1), of "flattened_rgb (r, g, b, a)"]
    by (simp split: if_splits)
qed

lemma main_core_example:
  "main_core sample_lib
     \<lparr>arg_width = 2, arg_height = 1, arg_mode = Fixed, arg_palette_size = 16, arg_buckets = 6,
      arg_alpha_threshold = 40\<rparr> [(230, 57, 70, 255), (0, 0, 0, 39)] =
   Inr \<lparr>out_palette = take 16 GAME_PALETTE_32, out_mapped = [0, - 1], out_rows = [[0, - 1]],
        out_used = [0]\<rparr>"
  by (simp add: main_core_def main_palette_def palette_for_size_def flattened_rgb_opaque
      nearest_palette_index_def GAME_PALETTE_32_def enumerate_eq_zip sqdist_def upt_rec chunked_def
      Let_def)

text \<open>
  Claim C6. In the output of the conversion, the value of every pixel whose alpha is
  strictly below the threshold is exactly \<open>-1\<close>, and the value of every pixel whose alpha
  is at or above it is \<open>\<ge> 0\<close>; this holds in the flat sequence and, for a width \<open>\<ge> 1\<close>, at
  the pixel's cell in the grid (row \<open>i div width\<close>, column \<open>i mod width\<close>).
\<close>

theorem transparency_consistency:
  "main_core L args pixels_rgba = Inr out \<Longrightarrow> i < length pixels_rgba \<Longrightarrow>
   pixels_rgba ! i = (r, g, b, a) \<Longrightarrow>
   (a < arg_alpha_threshold args \<longrightarrow>
      out_mapped out ! i = - 1 \<and>
      (1 \<le> arg_width args \<longrightarrow>
         out_rows out ! (i div nat (arg_width args)) ! (i mod nat (arg_width args)) = - 1)) \<and>
   (arg_alpha_threshold args \<le> a \<longrightarrow>
      0 \<le> out_mapped out ! i \<and>
      (1 \<le> arg_width args \<longrightarrow>
         0 \<le> out_rows out ! (i div nat (arg_width args)) ! (i mod nat (arg_width args))))"
proof -
  assume m: "main_core L args pixels_rgba = Inr out" and i: "i < length pixels_rgba"
    and px: "pixels_rgba ! i = (r, g, b, a)"
  note mc = main_core_Inr[OF m]
  have len: "i < length (out_mapped out)" using i by (simp add: mc(2) length_map_pixels)
  have cell: "out_rows out ! (i div nat (arg_width args)) ! (i mod nat (arg_width args))
                = out_mapped out ! i" if "1 \<le> arg_width args"
    unfolding mc(3) by (rule chunked_nth[OF that len])
  have v: "out_mapped out ! i =
      (if a < arg_alpha_threshold args then - 1
       else int (nearest_palette_index (flattened_rgb (r, g, b, a)) (out_palette out)))"
    unfolding mc(2) by (rule map_pixels_nth[OF i px])
  show ?thesis using v cell by auto
qed

theorem transparency_consistency_witness:
  "main_core sample_lib
     \<lparr>arg_width = 2, arg_height = 1, arg_mode = Fixed, arg_palette_size = 16, arg_buckets = 6,
      arg_alpha_threshold = 40\<rparr> [(230, 57, 70, 255), (0, 0, 0, 39)] =
   Inr \<lparr>out_palette = take 16 GAME_PALETTE_32, out_mapped = [0, - 1], out_rows = [[0, - 1]],
        out_used = [0]\<rparr> \<and>
   (39::int) < 40 \<and> (40::int) \<le> 255 \<and> (1::int) \<le> 2 \<and>
   [0, - 1 :: int] ! 1 = - 1 \<and> [[0, - 1 :: int]] ! (1 div nat 2) ! (1 mod nat 2) = - 1 \<and>
   0 \<le> [0, - 1 :: int] ! 0 \<and> 0 \<le> [[0, - 1 :: int]] ! (0 div nat 2) ! (0 mod nat 2)"
  using transparency_consistency [OF main_core_example, of 1 0 0 0 39]
    transparency_consistency [OF main_core_example, of 0 230 57 70 255]
    main_core_example
  by simp

text \<open>
  Claim C8. For every input and every non-empty palette, every value \<open>v\<close> of the index
  grid is \<open>-1\<close> or satisfies \<open>0 \<le> v < len(palette)\<close>. The palette of the conversion is
  never empty, so this holds for every grid it returns.
\<close>

theorem grid_index_bounds:
  "(palette \<noteq> [] \<longrightarrow>
      (\<forall>row\<in>set (chunked (map_pixels t palette pixels_rgba) w). \<forall>v\<in>set row.
          v = - 1 \<or> (0 \<le> v \<and> v < int (length palette)))) \<and>
   (main_core L args pixels_rgba = Inr out \<longrightarrow>
      out_palette out \<noteq> [] \<and>
      (\<forall>row\<in>set (out_rows out). \<forall>v\<in>set row.
          v = - 1 \<or> (0 \<le> v \<and> v < int (length (out_palette out)))))"
proof -
  have gen: "v = - 1 \<or> (0 \<le> v \<and> v < int (length p))"
    if "p \<noteq> []" "row \<in> set (chunked (map_pixels t' p pixels_rgba) w')" "v \<in> set row"
    for p t' w' row v
  proof -
    from that(2,3) have "v \<in> set (concat (chunked (map_pixels t' p pixels_rgba) w'))" by auto
    then have "v \<in> set (map_pixels t' p pixels_rgba)" by (simp only: concat_chunked)
    from map_pixels_bounds[OF that(1) this] show ?thesis .
  qed
  have core: "out_palette out \<noteq> [] \<and>
      (\<forall>row\<in>set (out_rows out). \<forall>v\<in>set row.
          v = - 1 \<or> (0 \<le> v \<and> v < int (length (out_palette out))))"
    if m: "main_core L args pixels_rgba = Inr out"
  proof -
    note mc = main_core_Inr[OF m]
    have ne: "out_palette out \<noteq> []" by (rule main_palette_nonempty[OF mc(1)])
    show ?thesis using gen[OF ne] ne unfolding mc(3) mc(2) by blast
  qed
  from gen core show ?thesis by blast
qed

theorem grid_index_bounds_witness:
  "take 16 GAME_PALETTE_32 \<noteq> [] \<and>
   main_core sample_lib
     \<lparr>arg_width = 2, arg_height = 1, arg_mode = Fixed, arg_palette_size = 16, arg_buckets = 6,
      arg_alpha_threshold = 40\<rparr> [(230, 57, 70, 255), (0, 0, 0, 39)] =
   Inr \<lparr>out_palette = take 16 GAME_PALETTE_32, out_mapped = [0, - 1], out_rows = [[0, - 1]],
        out_used = [0]\<rparr> \<and>
   list_all (\<lambda>v. v = - 1 \<or> (0 \<le> v \<and> v < int (length (take 16 GAME_PALETTE_32))))
     (concat [[0, - 1]])"
  using grid_index_bounds [of "take 16 GAME_PALETTE_32" 40 "[(230, 57, 70, 255), (0, 0, 0, 39)]" 2
      sample_lib
      "\<lparr>arg_width = 2, arg_height = 1, arg_mode = Fixed, arg_palette_size = 16, arg_buckets = 6,
        arg_alpha_threshold = 40\<rparr>"
      "\<lparr>out_palette = take 16 GAME_PALETTE_32, out_mapped = [0, - 1], out_rows = [[0, - 1]],
        out_used = [0]\<rparr>"]
    main_core_example
  by (simp add: GAME_PALETTE_32_def)

section \<open>Failures of \<open>main\<close>\<close>

lemma main_Inr:
  assumes "main L P args = Inr out"
  obtains pixels_rgba where "arg_palette_size args = 16 \<or> arg_palette_size args = 32"
    and "input_failure P = None"
    and "resized_rgba P (arg_width args) (arg_height args) = Inr pixels_rgba"
    and "main_core L args pixels_rgba = Inr out"
  using assms
  by (auto simp: main_def parse_args_def split: if_splits sum.splits option.splits)

lemma sample_pillow_contract: "pillow_contract sample_pillow"
  by (auto simp: pillow_contract_def sample_pillow_def)

text \<open>
  Claim C2. A width or a height \<open>\<le> 0\<close> makes \<open>main\<close> fail, whatever the other arguments
  and the image: once the arguments are parsed and the image is open, with the \<open>ValueError\<close>
  that Pillow's \<open>resize\<close> raises for such a size, the first use of the two numbers, before
  any palette is built or any pixel mapped; and earlier than that otherwise. No failed run
  has output, which \<open>main\<close> produces as its last step. The third case of the claim does
  not arise: \<open>main\<close> takes its pixels from \<open>resize\<close>, so a run that succeeds had a width and
  a height \<open>\<ge> 1\<close> and exactly \<open>width * height\<close> pixels, one grid value for each, in \<open>height\<close>
  rows of length \<open>width\<close>.
\<close>

theorem main_rejects_bad_dimensions:
  "pillow_contract P \<Longrightarrow>
   (arg_width args \<le> 0 \<or> arg_height args \<le> 0 \<longrightarrow>
      (\<exists>e. main L P args = Inl e) \<and>
      ((arg_palette_size args = 16 \<or> arg_palette_size args = 32) \<and> input_failure P = None \<longrightarrow>
         (\<exists>msg. main L P args = Inl (ValueError msg)))) \<and>
   (\<forall>out. main L P args = Inr out \<longrightarrow>
      1 \<le> arg_width args \<and> 1 \<le> arg_height args \<and>
      (\<exists>pixels_rgba. resized_rgba P (arg_width args) (arg_height args) = Inr pixels_rgba \<and>
         length pixels_rgba = nat (arg_width args * arg_height args) \<and>
         main_core L args pixels_rgba = Inr out) \<and>
      length (out_mapped out) = nat (arg_width args * arg_height args) \<and>
      length (out_rows out) = nat (arg_height args) \<and>
      (\<forall>row\<in>set (out_rows out). length row = nat (arg_width args)))"
proof -
  assume c: "pillow_contract P"
  let ?w = "arg_width args" and ?h = "arg_height args"
  have bad: "\<exists>msg. resized_rgba P ?w ?h = Inl (ValueError msg)" if "?w \<le> 0 \<or> ?h \<le> 0"
    using c that unfolding pillow_contract_def by blast
  have len: "length px = nat (?w * ?h)" if "resized_rgba P ?w ?h = Inr px" for px
    using c that unfolding pillow_contract_def by blast
  have fail: "(\<exists>e. main L P args = Inl e) \<and>
      ((arg_palette_size args = 16 \<or> arg_palette_size args = 32) \<and> input_failure P = None \<longrightarrow>
         (\<exists>msg. main L P args = Inl (ValueError msg)))" if "?w \<le> 0 \<or> ?h \<le> 0"
  proof -
    from bad[OF that] obtain msg where m: "resized_rgba P ?w ?h = Inl (ValueError msg)" by blast
    show ?thesis by (auto simp: main_def parse_args_def m split: option.splits)
  qed
  have ok: "1 \<le> ?w \<and> 1 \<le> ?h \<and>
      (\<exists>pixels_rgba. resized_rgba P ?w ?h = Inr pixels_rgba \<and>
         length pixels_rgba = nat (?w * ?h) \<and> main_core L args pixels_rgba = Inr out) \<and>
      length (out_mapped out) = nat (?w * ?h) \<and>
      length (out_rows out) = nat ?h \<and>
      (\<forall>row\<in>set (out_rows out). length row = nat ?w)" if m: "main L P args = Inr out" for out
  proof -
    from m obtain px where r: "resized_rgba P ?w ?h = Inr px"
      and mc: "main_core L args px = Inr out"
      by (rule main_Inr)
    have pos: "1 \<le> ?w \<and> 1 \<le> ?h"
    proof (rule ccontr)
      assume "\<not> (1 \<le> ?w \<and> 1 \<le> ?h)"
      then have "?w \<le> 0 \<or> ?h \<le> 0" by linarith
      from bad[OF this] r show False by auto
    qed
    then have w: "1 \<le> ?w" and h: "1 \<le> ?h" by simp_all
    note core = main_core_Inr[OF mc]
    have lm: "length (out_mapped out) = nat (?w * ?h)"
      by (simp add: core(2) length_map_pixels len[OF r])
    have mul: "nat (?w * ?h) = nat ?h * nat ?w" using w h by (simp add: nat_mult_distrib mult.commute)
    have rows: "length (out_rows out) = nat ?h \<and> (\<forall>row\<in>set (out_rows out). length row = nat ?w)"
    proof (cases rule: chunked_cases[OF w, of "out_mapped out"])
      case (1 rows)
      then show ?thesis using lm mul w by (simp add: core(3))
    next
      case (2 row rows)
      then show ?thesis using lm mul w by simp
    qed
    from pos r len[OF r] mc lm rows show ?thesis by blast
  qed
  from fail ok show ?thesis by blast
qed

theorem main_rejects_bad_dimensions_witness:
  "pillow_contract sample_pillow \<and> (0::int) \<le> 0 \<and> input_failure sample_pillow = None \<and>
   main sample_lib sample_pillow
     \<lparr>arg_width = 0, arg_height = 15, arg_mode = Tonal, arg_palette_size = 32, arg_buckets = 6,
      arg_alpha_threshold = 40\<rparr> = Inl (ValueError ''height and width must be > 0'') \<and>
   main sample_lib sample_pillow
     \<lparr>arg_width = 15, arg_height = - 1, arg_mode = Fixed, arg_palette_size = 16, arg_buckets = 6,
      arg_alpha_threshold = 40\<rparr> = Inl (ValueError ''height and width must be > 0'') \<and>
   main sample_lib sample_pillow
     \<lparr>arg_width = 2, arg_height = 1, arg_mode = Fixed, arg_palette_size = 16, arg_buckets = 6,
      arg_alpha_threshold = 40\<rparr> =
     Inr \<lparr>out_palette = take 16 GAME_PALETTE_32, out_mapped = [7, 7], out_rows = [[7, 7]],
          out_used = [7]\<rparr> \<and>
   length [7, 7 :: int] = nat (2 * 1) \<and> length [[7, 7 :: int]] = nat 1"
proof -
  have ok: "main sample_lib sample_pillow
     \<lparr>arg_width = 2, arg_height = 1, arg_mode = Fixed, arg_palette_size = 16, arg_buckets = 6,
      arg_alpha_threshold = 40\<rparr> =
     Inr \<lparr>out_palette = take 16 GAME_PALETTE_32, out_mapped = [7, 7], out_rows = [[7, 7]],
          out_used = [7]\<rparr>"
    by (simp add: main_def parse_args_def sample_pillow_def numeral_2_eq_2 main_core_def
        main_palette_def palette_for_size_def flattened_rgb_opaque nearest_palette_index_def
        GAME_PALETTE_32_def enumerate_eq_zip sqdist_def upt_rec chunked_def Let_def)
  have c: "pillow_contract sample_pillow" by (rule sample_pillow_contract)
  note w = main_rejects_bad_dimensions [OF c]
  from w[of "\<lparr>arg_width = 0, arg_height = 15, arg_mode = Tonal, arg_palette_size = 32,
      arg_buckets = 6, arg_alpha_threshold = 40\<rparr>" sample_lib]
    w[of "\<lparr>arg_width = 15, arg_height = - 1, arg_mode = Fixed, arg_palette_size = 16,
      arg_buckets = 6, arg_alpha_threshold = 40\<rparr>" sample_lib]
    w[of "\<lparr>arg_width = 2, arg_height = 1, arg_mode = Fixed, arg_palette_size = 16,
      arg_buckets = 6, arg_alpha_threshold = 40\<rparr>" sample_lib]
    c ok
  show ?thesis by (simp add: main_def parse_args_def sample_pillow_def)
qed

section \<open>The tonal palette\<close>

text \<open>
  A value level is the double \<open>0.22 + 0.72 * (i / (n - 1))\<close>: three roundings on top of
  those of the two literals, so it lies within \<open>5 / 2 ^ 53\<close> of the exact interpolation.
\<close>

lemma tone_level_error:
  fixes X :: rat
  assumes X: "0 \<le> X" "X \<le> 1"
  shows "\<bar>fl (fl (22 / 100) + fl (fl (72 / 100) * fl X)) - (22 / 100 + 72 / 100 * X)\<bar> \<le> 5 / 2 ^ 53"
proof -
  define d :: rat where "d = 1 / 2 ^ 53"
  have d: "0 < d" "d < 1 / 1000" by (simp_all add: d_def)
  define c22 where "c22 = fl (22 / 100)"
  define c72 where "c72 = fl (72 / 100)"
  define q where "q = fl X"
  define pr where "pr = fl (c72 * q)"
  define t where "t = fl (c22 + pr)"
  have "\<bar>22 / 100 :: rat\<bar> < 2" by simp
  from fl_err1[OF this] have e1: "\<bar>c22 - 22 / 100\<bar> \<le> d" by (simp add: c22_def d_def)
  have "\<bar>72 / 100 :: rat\<bar> < 2" by simp
  from fl_err1[OF this] have e2: "\<bar>c72 - 72 / 100\<bar> \<le> d" by (simp add: c72_def d_def)
  have c72b: "\<bar>c72\<bar> \<le> 1" using e2 d by linarith
  have "\<bar>X\<bar> < 2" using X by simp
  from fl_err1[OF this] have e3: "\<bar>q - X\<bar> \<le> d" by (simp add: q_def d_def)
  have qb: "\<bar>q\<bar> \<le> 1 + d" using e3 X by linarith
  have cq: "\<bar>c72 * q\<bar> \<le> 1 * (1 + d)"
    unfolding abs_mult by (intro mult_mono c72b qb) (use d in simp_all)
  have "1 * (1 + d) < 2" using d by simp
  with cq have "\<bar>c72 * q\<bar> < 2" by (rule le_less_trans)
  from fl_err1[OF this] have e4: "\<bar>pr - c72 * q\<bar> \<le> d" by (simp add: pr_def d_def)
  have prb: "\<bar>pr\<bar> \<le> 1 + 2 * d"
  proof -
    have "\<bar>pr\<bar> \<le> \<bar>pr - c72 * q\<bar> + \<bar>c72 * q\<bar>" by simp
    with e4 cq show ?thesis by simp
  qed
  have "\<bar>c22 + pr\<bar> \<le> \<bar>c22\<bar> + \<bar>pr\<bar>" by (rule abs_triangle_ineq)
  moreover have "\<bar>c22\<bar> \<le> 22 / 100 + d" using e1 by linarith
  ultimately have "\<bar>c22 + pr\<bar> < 2" using prb d by linarith
  from fl_err1[OF this] have e5: "\<bar>t - (c22 + pr)\<bar> \<le> d" by (simp add: t_def d_def)
  have e6: "\<bar>c72 * (q - X)\<bar> \<le> 1 * d"
    unfolding abs_mult by (intro mult_mono c72b e3) (use d in simp_all)
  have e7: "\<bar>(c72 - 72 / 100) * X\<bar> \<le> d * 1"
    unfolding abs_mult by (intro mult_mono e2) (use X d in simp_all)
  have "t - (22 / 100 + 72 / 100 * X) =
      (t - (c22 + pr)) + (c22 - 22 / 100) + (pr - c72 * q) + c72 * (q - X) + (c72 - 72 / 100) * X"
    by (simp add: algebra_simps)
  then have "\<bar>t - (22 / 100 + 72 / 100 * X)\<bar> \<le> 5 * d"
    using e5 e1 e4 e6 e7 by linarith
  then show ?thesis by (simp add: t_def pr_def q_def c72_def c22_def d_def)
qed

lemma length_tone_values: "length (tone_values n) = nat n"
  by (simp add: tone_values_def)

lemma tone_values_nth:
  "i < nat n \<Longrightarrow> tone_values n ! i =
     fl (fl (22 / 100) + fl (fl (72 / 100) * fl (of_nat i / of_int (max 1 (n - 1)))))"
  by (simp add: tone_values_def fadd_def fmul_def int_truediv_def)

lemma tone_values_error:
  assumes "2 \<le> n" and "i < nat n"
  shows "\<bar>tone_values n ! i - (22 / 100 + 72 / 100 * (of_nat i / of_int (n - 1)))\<bar> \<le> 5 / 2 ^ 53"
proof -
  have m: "max 1 (n - 1) = n - 1" using assms(1) by simp
  have npos: "0 < (of_int (n - 1) :: rat)" using assms(1) by simp
  have "int i \<le> n - 1" using assms by linarith
  then have "(of_int (int i) :: rat) \<le> of_int (n - 1)" by (simp only: of_int_le_iff)
  then have le: "(of_nat i :: rat) \<le> of_int (n - 1)" by simp
  have X: "0 \<le> (of_nat i / of_int (n - 1) :: rat)" "(of_nat i / of_int (n - 1) :: rat) \<le> 1"
    using npos le by simp_all
  show ?thesis unfolding tone_values_nth[OF assms(2)] m by (rule tone_level_error[OF X])
qed

lemma tone_values_strict:
  assumes n: "2 \<le> n" "n \<le> 2 ^ 49" and ij: "i < j" "j < nat n"
  shows "tone_values n ! i < tone_values n ! j"
proof -
  define m :: rat where "m = of_int (n - 1)"
  have mpos: "0 < m" using n(1) by (simp add: m_def)
  have "(of_int (n - 1) :: rat) \<le> of_int (2 ^ 49)" using n(2) by (simp only: of_int_le_iff)
  then have mle: "m \<le> 2 ^ 49" by (simp add: m_def)
  have "int i + 1 \<le> int j" using ij(1) by simp
  then have "(of_int (int i + 1) :: rat) \<le> of_int (int j)" by (simp only: of_int_le_iff)
  then have st: "(of_nat i :: rat) + 1 \<le> of_nat j" by simp
  have gap: "1 / 2 ^ 49 \<le> of_nat j / m - of_nat i / m"
  proof -
    have "1 / 2 ^ 49 \<le> 1 / m" using mpos mle by (simp add: frac_le)
    also have "\<dots> \<le> (of_nat j - of_nat i) / m"
      using st mpos by (simp add: divide_right_mono)
    also have "\<dots> = of_nat j / m - of_nat i / m" by (simp add: diff_divide_distrib)
    finally show ?thesis .
  qed
  have i: "i < nat n" using ij by simp
  define Ei :: rat where "Ei = 22 / 100 + 72 / 100 * (of_nat i / m)"
  define Ej :: rat where "Ej = 22 / 100 + 72 / 100 * (of_nat j / m)"
  define d :: rat where "d = 5 / 2 ^ 53"
  have ei: "\<bar>tone_values n ! i - Ei\<bar> \<le> d"
    using tone_values_error[OF n(1) i] by (simp add: Ei_def m_def d_def)
  have ej: "\<bar>tone_values n ! j - Ej\<bar> \<le> d"
    using tone_values_error[OF n(1) ij(2)] by (simp add: Ej_def m_def d_def)
  have "Ej - Ei = 72 / 100 * (of_nat j / m - of_nat i / m)"
    by (simp add: Ei_def Ej_def algebra_simps)
  also have "\<dots> \<ge> 72 / 100 * (1 / 2 ^ 49)"
    by (rule mult_left_mono[OF gap]) simp
  finally have "72 / 100 * (1 / 2 ^ 49) \<le> Ej - Ei" .
  moreover have "2 * d < 72 / 100 * (1 / 2 ^ 49)" by (simp add: d_def)
  ultimately have "2 * d < Ej - Ei" by simp
  with ei ej show ?thesis by linarith
qed

lemma tone_values_first: "2 \<le> n \<Longrightarrow> tone_values n ! 0 = fl (22 / 100)"
proof -
  assume "2 \<le> n"
  then have "0 < nat n" by simp
  from tone_values_nth[OF this] have "tone_values n ! 0 = fl (fl (22 / 100) + fl (fl (72 / 100) * fl 0))"
    by simp
  also have "\<dots> = fl (fl (22 / 100))" by (simp add: fl_0)
  also have "\<dots> = fl (22 / 100)" by code_simp
  finally show ?thesis .
qed

lemma tone_values_last: "2 \<le> n \<Longrightarrow> tone_values n ! (nat n - 1) = fl (94 / 100)"
proof -
  assume n: "2 \<le> n"
  then have "nat n - 1 < nat n" by simp
  from tone_values_nth[OF this]
  have "tone_values n ! (nat n - 1) =
      fl (fl (22 / 100) + fl (fl (72 / 100) * fl (of_nat (nat n - 1) / of_int (max 1 (n - 1)))))" .
  moreover have "(of_nat (nat n - 1) :: rat) = of_int (n - 1)" using n by (simp add: of_nat_diff)
  moreover have "max 1 (n - 1) = n - 1" using n by simp
  moreover have "(of_int (n - 1) :: rat) \<noteq> 0" using n by simp
  moreover have "fl 1 = 1" using fl_of_int[of 1] by simp
  ultimately have "tone_values n ! (nat n - 1) = fl (fl (22 / 100) + fl (fl (72 / 100)))"
    by simp
  also have "\<dots> = fl (94 / 100)" by code_simp
  finally show ?thesis .
qed

lemma map_fst_tone_entries:
  "map fst (map (tone_entry L hue sat) (enumerate 0 vs)) =
     map (\<lambda>i. ''tone'' @ str_nat i) [0 ..< length vs]"
proof -
  have h: "fst (tone_entry L hue sat iv) = ''tone'' @ str_nat (fst iv)" for iv
    by (cases iv) (simp add: tone_entry_def split: prod.splits)
  show ?thesis
    by (rule nth_equalityI) (simp_all add: h nth_enumerate_eq)
qed

lemma tone_exact_gap:
  assumes n: "2 \<le> n" "n - 1 \<le> M" and ij: "i < j" "j < nat n"
  shows "72 / 100 / of_int M \<le>
         (22 / 100 + 72 / 100 * (of_nat j / of_int (n - 1)))
          - (22 / 100 + 72 / 100 * (of_nat i / of_int (n - 1)) :: rat)"
proof -
  define m :: rat where "m = of_int (n - 1)"
  have mpos: "0 < m" using n(1) by (simp add: m_def)
  have "(of_int (n - 1) :: rat) \<le> of_int M" using n(2) by (simp only: of_int_le_iff)
  then have mle: "m \<le> of_int M" by (simp add: m_def)
  have "int i + 1 \<le> int j" using ij(1) by simp
  then have "(of_int (int i + 1) :: rat) \<le> of_int (int j)" by (simp only: of_int_le_iff)
  then have st: "(of_nat i :: rat) + 1 \<le> of_nat j" by simp
  have "1 / of_int M \<le> 1 / m" using mpos mle by (simp add: frac_le)
  also have "\<dots> \<le> (of_nat j - of_nat i) / m"
    using st mpos by (simp add: divide_right_mono)
  also have "\<dots> = of_nat j / m - of_nat i / m" by (simp add: diff_divide_distrib)
  finally have gap: "1 / of_int M \<le> of_nat j / m - of_nat i / m" .
  have "72 / 100 / of_int M = 72 / 100 * (1 / of_int M :: rat)" by simp
  also have "\<dots> \<le> 72 / 100 * (of_nat j / m - of_nat i / m)"
    by (rule mult_left_mono[OF gap]) simp
  also have "\<dots> = (22 / 100 + 72 / 100 * (of_nat j / m)) - (22 / 100 + 72 / 100 * (of_nat i / m))"
  proof -
    have "72 / 100 * (xj - xi) = (22 / 100 + 72 / 100 * xj) - (22 / 100 + 72 / 100 * xi)"
      for xi xj :: rat by (simp add: right_diff_distrib)
    then show ?thesis .
  qed
  finally show ?thesis unfolding m_def .
qed

lemma tone_exact_range:
  assumes "2 \<le> n" "i < nat n"
  shows "22 / 100 \<le> (22 / 100 + 72 / 100 * (of_nat i / of_int (n - 1)) :: rat)"
    and "(22 / 100 + 72 / 100 * (of_nat i / of_int (n - 1)) :: rat) \<le> 94 / 100"
proof -
  have npos: "0 < (of_int (n - 1) :: rat)" using assms(1) by simp
  have "int i \<le> n - 1" using assms by linarith
  then have "(of_int (int i) :: rat) \<le> of_int (n - 1)" by (simp only: of_int_le_iff)
  then have le: "(of_nat i :: rat) \<le> of_int (n - 1)" by simp
  define X :: rat where "X = of_nat i / of_int (n - 1)"
  have X: "0 \<le> X" "X \<le> 1"
    using npos le by (simp_all add: X_def)
  from X have "22 / 100 \<le> 22 / 100 + 72 / 100 * X" by simp
  then show "22 / 100 \<le> (22 / 100 + 72 / 100 * (of_nat i / of_int (n - 1)) :: rat)"
    unfolding X_def .
  from X have "22 / 100 + 72 / 100 * X \<le> 94 / 100" by simp
  then show "(22 / 100 + 72 / 100 * (of_nat i / of_int (n - 1)) :: rat) \<le> 94 / 100"
    unfolding X_def .
qed

text \<open>The value stored for a level: \<open>int(v * 255)\<close>.\<close>

lemma stored_value:
  assumes n: "2 \<le> n" and i: "i < nat n"
  defines "E \<equiv> (22 / 100 + 72 / 100 * (of_nat i / of_int (n - 1)) :: rat)"
  shows "\<bar>fmul (tone_values n ! i) 255 - 255 * E\<bar> \<le> 1403 / 2 ^ 53"
    and "py_int (fmul (tone_values n ! i) 255) = \<lfloor>fmul (tone_values n ! i) 255\<rfloor>"
proof -
  define v where "v = tone_values n ! i"
  define d :: rat where "d = 5 / 2 ^ 53"
  have ev: "\<bar>v - E\<bar> \<le> d" using tone_values_error[OF n i] by (simp add: v_def E_def d_def)
  have Er: "22 / 100 \<le> E" "E \<le> 94 / 100" using tone_exact_range[OF n i] by (simp_all add: E_def)
  have dsmall: "d < 1 / 1000" by (simp add: d_def)
  have vr: "0 < v" "v < 1" using ev Er dsmall by linarith+
  then have "\<bar>v * 255\<bar> < 256" by simp
  from fl_err256[OF this] have ea: "\<bar>fmul v 255 - v * 255\<bar> \<le> 1 / 2 ^ 46" by (simp add: fmul_def)
  have "\<bar>fmul v 255 - 255 * E\<bar> \<le> 1 / 2 ^ 46 + 255 * d" using ea ev by linarith
  also have "\<dots> = 1403 / 2 ^ 53" by (simp add: d_def)
  finally show "\<bar>fmul (tone_values n ! i) 255 - 255 * E\<bar> \<le> 1403 / 2 ^ 53" by (simp add: v_def)
  have "(1::rat) / 2 ^ 46 < 1" by simp
  then have "0 \<le> fmul v 255" using ea vr Er ev dsmall by linarith
  then show "py_int (fmul (tone_values n ! i) 255) = \<lfloor>fmul (tone_values n ! i) 255\<rfloor>"
    by (simp add: py_int_def v_def)
qed

lemma stored_value_mono:
  assumes n: "2 \<le> n" "n \<le> 2 ^ 49" and ij: "i < j" "j < nat n"
  shows "py_int (fmul (tone_values n ! i) 255) \<le> py_int (fmul (tone_values n ! j) 255)"
proof -
  have i: "i < nat n" using ij by simp
  define Ei :: rat where "Ei = 22 / 100 + 72 / 100 * (of_nat i / of_int (n - 1))"
  define Ej :: rat where "Ej = 22 / 100 + 72 / 100 * (of_nat j / of_int (n - 1))"
  define e :: rat where "e = 1403 / 2 ^ 53"
  have ai: "\<bar>fmul (tone_values n ! i) 255 - 255 * Ei\<bar> \<le> e"
    using stored_value(1)[OF n(1) i] by (simp add: Ei_def e_def)
  have aj: "\<bar>fmul (tone_values n ! j) 255 - 255 * Ej\<bar> \<le> e"
    using stored_value(1)[OF n(1) ij(2)] by (simp add: Ej_def e_def)
  have "n - 1 \<le> 2 ^ 49" using n(2) by simp
  from tone_exact_gap[OF n(1) this ij] have "72 / 100 / 2 ^ 49 \<le> Ej - Ei"
    by (simp add: Ei_def Ej_def)
  moreover have "2 * e < 255 * (72 / 100 / 2 ^ 49)" by (simp add: e_def)
  ultimately have "fmul (tone_values n ! i) 255 \<le> fmul (tone_values n ! j) 255"
    using ai aj by linarith
  then have "\<lfloor>fmul (tone_values n ! i) 255\<rfloor> \<le> \<lfloor>fmul (tone_values n ! j) 255\<rfloor>"
    by (rule floor_mono)
  then show ?thesis by (simp add: stored_value(2)[OF n(1) i] stored_value(2)[OF n(1) ij(2)])
qed

lemma stored_value_strict:
  assumes n: "2 \<le> n" "n \<le> 184" and ij: "i < j" "j < nat n"
  shows "py_int (fmul (tone_values n ! i) 255) < py_int (fmul (tone_values n ! j) 255)"
proof -
  have i: "i < nat n" using ij by simp
  define Ei :: rat where "Ei = 22 / 100 + 72 / 100 * (of_nat i / of_int (n - 1))"
  define Ej :: rat where "Ej = 22 / 100 + 72 / 100 * (of_nat j / of_int (n - 1))"
  define e :: rat where "e = 1403 / 2 ^ 53"
  have ai: "\<bar>fmul (tone_values n ! i) 255 - 255 * Ei\<bar> \<le> e"
    using stored_value(1)[OF n(1) i] by (simp add: Ei_def e_def)
  have aj: "\<bar>fmul (tone_values n ! j) 255 - 255 * Ej\<bar> \<le> e"
    using stored_value(1)[OF n(1) ij(2)] by (simp add: Ej_def e_def)
  have "n - 1 \<le> 183" using n(2) by simp
  from tone_exact_gap[OF n(1) this ij] have "72 / 100 / 183 \<le> Ej - Ei"
    by (simp add: Ei_def Ej_def)
  moreover have "1 + 2 * e < 255 * (72 / 100 / 183)" by (simp add: e_def)
  ultimately have "fmul (tone_values n ! i) 255 + 1 \<le> fmul (tone_values n ! j) 255"
    using ai aj by linarith
  then have "\<lfloor>fmul (tone_values n ! i) 255 + 1\<rfloor> \<le> \<lfloor>fmul (tone_values n ! j) 255\<rfloor>"
    by (rule floor_mono)
  then have "\<lfloor>fmul (tone_values n ! i) 255\<rfloor> < \<lfloor>fmul (tone_values n ! j) 255\<rfloor>" by simp
  then show ?thesis by (simp add: stored_value(2)[OF n(1) i] stored_value(2)[OF n(1) ij(2)])
qed

lemma hsv_to_rgb_hue0:
  "s \<noteq> 0 \<Longrightarrow> hsv_to_rgb 0 s v = (v, fmul v (fsub 1 (fmul s 1)), fmul v (fsub 1 s))"
  by (simp add: hsv_to_rgb_def Let_def fmul_def fsub_def fl_0 fl_1 py_int_def float_of_int_def)

subsection \<open>Evaluating the palette\<close>

text \<open>
  Code equations with integer powers, for the evaluation of \<open>fl\<close> at a literal.
\<close>

lemma binexp_code [code]:
  "binexp x = (case quotient_of \<bar>x\<bar> of (p, q) \<Rightarrow>
     (let d = bitlen p - bitlen q;
          t = (if 0 \<le> d then of_int (2 ^ nat d) else Fract 1 (2 ^ nat (- d)))
      in if t \<le> \<bar>x\<bar> then d else d - 1))"
proof -
  have "(if 0 \<le> d then of_int (2 ^ nat d) else Fract 1 (2 ^ nat (- d))) = (2::rat) powi d" for d
    by (simp add: power_int_def Fract_of_int_quotient power_inverse inverse_eq_divide power_one_over)
  then show ?thesis by (simp add: binexp_def Let_def)
qed

lemma fl_code [code]:
  "fl x = (if x = 0 then 0 else
     (let k = 52 - max (binexp x) (- 1022);
          s = (if 0 \<le> k then of_int (2 ^ nat k) else Fract 1 (2 ^ nat (- k)))
      in of_int (round_half_even (x * s)) / s))"
proof -
  have "(if 0 \<le> d then of_int (2 ^ nat d) else Fract 1 (2 ^ nat (- d))) = (2::rat) powi d" for d
    by (simp add: power_int_def Fract_of_int_quotient power_inverse inverse_eq_divide power_one_over)
  then show ?thesis by (simp add: fl_def Let_def)
qed

lemma sample_lib_cpython: "cpython_lib sample_lib"
  by (simp add: cpython_lib_def sample_lib_def fadd_def fl_0 fl_1)

lemma rgb_to_hsv_red: "rgb_to_hsv 1 0 0 = (0, 1, 1)"
  by code_simp

lemma rgb_to_hsv_white: "rgb_to_hsv 1 1 1 = (0, 0, 1)"
  by code_simp

lemma rgb_to_hsv_pink:
  "rgb_to_hsv 1 (fl (127 / 255)) (fl (127 / 255)) = (0, 282578800148737 / 562949953421312, 1)"
  by code_simp

lemma sat_clamps:
  "max (fl (25 / 100)) (min (fl (85 / 100)) 1) = fl (85 / 100)"
  "max (fl (25 / 100)) (min (fl (85 / 100)) 0) = 1 / 4"
  "max (fl (25 / 100)) (min (fl (85 / 100)) (282578800148737 / 562949953421312))
     = 282578800148737 / 562949953421312"
  by code_simp+

lemma colourful_thresholds:
  "fl (12 / 100) < 1" "\<not> fl (12 / 100) < 0" "fl (12 / 100) < 282578800148737 / 562949953421312"
  "fl (85 / 100) \<noteq> 0" "fl (25 / 100) \<le> fl (85 / 100)"
  by code_simp+

lemma hue_sat_single:
  "cpython_lib L \<Longrightarrow> hue_sat L [(0, s, v)] = (0, s)"
  by (simp add: hue_sat_def Let_def cpython_lib_def fmul_def fdiv_def fl_0 float_mod_def py_int_def)

lemma hue_sat_none: "hue_sat L [] = (0, 0)"
  by (simp add: hue_sat_def)

lemma hsv_values_byte:
  "cpython_lib L \<Longrightarrow> 0 \<le> r \<Longrightarrow> r \<le> 255 \<Longrightarrow> 0 \<le> g \<Longrightarrow> g \<le> 255 \<Longrightarrow> 0 \<le> b \<Longrightarrow> b \<le> 255 \<Longrightarrow>
   hsv_values L [(r, g, b)] =
     [rgb_to_hsv (fl (of_int r / 255)) (fl (of_int g / 255)) (fl (of_int b / 255))]"
  by (simp add: hsv_values_def cpython_lib_def fdiv_def float_of_int_byte)

lemma tonal_palette_red:
  assumes "cpython_lib L"
  shows "tonal_palette_from_pixels L [(255, 0, 0)] n =
           map (tone_entry L 0 (fl (85 / 100))) (enumerate 0 (tone_values n))"
proof -
  have hv: "hsv_values L [(255, 0, 0)] = [(0, 1, 1)]"
    using hsv_values_byte[OF assms, of 255 0 0] by (simp add: fl_0 fl_1 rgb_to_hsv_red)
  show ?thesis
    unfolding tonal_palette_from_pixels_def Let_def hv
    by (simp only: filter.simps prod.case colourful_thresholds if_True if_False
        hue_sat_single[OF assms] hue_sat_none sat_clamps)
qed

lemma tonal_palette_white:
  assumes "cpython_lib L"
  shows "tonal_palette_from_pixels L [(255, 255, 255)] n =
           map (tone_entry L 0 (1 / 4)) (enumerate 0 (tone_values n))"
proof -
  have hv: "hsv_values L [(255, 255, 255)] = [(0, 0, 1)]"
    using hsv_values_byte[OF assms, of 255 255 255] by (simp add: fl_1 rgb_to_hsv_white)
  show ?thesis
    unfolding tonal_palette_from_pixels_def Let_def hv
    by (simp only: filter.simps prod.case colourful_thresholds if_True if_False
        hue_sat_single[OF assms] hue_sat_none sat_clamps)
qed

lemma tonal_palette_pink:
  assumes "cpython_lib L"
  shows "tonal_palette_from_pixels L [(255, 127, 127)] n =
           map (tone_entry L 0 (282578800148737 / 562949953421312)) (enumerate 0 (tone_values n))"
proof -
  have hv: "hsv_values L [(255, 127, 127)] = [(0, 282578800148737 / 562949953421312, 1)]"
    using hsv_values_byte[OF assms, of 255 127 127] by (simp add: fl_1 rgb_to_hsv_pink)
  show ?thesis
    unfolding tonal_palette_from_pixels_def Let_def hv
    by (simp only: filter.simps prod.case colourful_thresholds if_True if_False
        hue_sat_single[OF assms] hue_sat_none sat_clamps)
qed

lemma tone_entry_hue0:
  "cpython_lib L \<Longrightarrow> s \<noteq> 0 \<Longrightarrow>
   tone_entry L 0 s (i, v) =
     (''tone'' @ str_nat i,
      (py_int (fmul v 255), py_int (fmul (fmul v (fsub 1 (fmul s 1))) 255),
       py_int (fmul (fmul v (fsub 1 s)) 255)))"
  by (simp add: tone_entry_def cpython_lib_def hsv_to_rgb_hue0)

lemma tone_values_2: "tone_values 2 = [fl (22 / 100), fl (94 / 100)]"
proof (rule nth_equalityI)
  show "length (tone_values 2) = length [fl (22 / 100), fl (94 / 100)]"
    by (simp add: length_tone_values)
  fix i assume "i < length (tone_values 2)"
  then have "i = 0 \<or> i = 1" by (auto simp: length_tone_values)
  then show "tone_values 2 ! i = [fl (22 / 100), fl (94 / 100)] ! i"
    using tone_values_first[of 2] tone_values_last[of 2] by auto
qed

lemma str_nat_digits: "str_nat 0 = ''0''" "str_nat (Suc 0) = ''1''" "str_nat 1 = ''1''" "str_nat 2 = ''2''" "str_nat 5 = ''5''"
  "str_nat 52 = ''52''" "str_nat 53 = ''53''"
  by code_simp+

lemma red_tones:
  "(py_int (fmul (fl (22 / 100)) 255),
    py_int (fmul (fmul (fl (22 / 100)) (fsub 1 (fmul (fl (85 / 100)) 1))) 255),
    py_int (fmul (fmul (fl (22 / 100)) (fsub 1 (fl (85 / 100)))) 255)) = (56, 8, 8)"
  "(py_int (fmul (fl (94 / 100)) 255),
    py_int (fmul (fmul (fl (94 / 100)) (fsub 1 (fmul (fl (85 / 100)) 1))) 255),
    py_int (fmul (fmul (fl (94 / 100)) (fsub 1 (fl (85 / 100)))) 255)) = (239, 35, 35)"
  by code_simp+

lemma white_tones:
  "(py_int (fmul (fl (22 / 100)) 255),
    py_int (fmul (fmul (fl (22 / 100)) (fsub 1 (fmul (1 / 4) 1))) 255),
    py_int (fmul (fmul (fl (22 / 100)) (fsub 1 (1 / 4))) 255)) = (56, 42, 42)"
  "(py_int (fmul (fl (94 / 100)) 255),
    py_int (fmul (fmul (fl (94 / 100)) (fsub 1 (fmul (1 / 4) 1))) 255),
    py_int (fmul (fmul (fl (94 / 100)) (fsub 1 (1 / 4))) 255)) = (239, 179, 179)"
  by code_simp+

lemma pink_tones:
  "(py_int (fmul (fl (22 / 100)) 255),
    py_int (fmul (fmul (fl (22 / 100)) (fsub 1 (fmul (282578800148737 / 562949953421312) 1))) 255),
    py_int (fmul (fmul (fl (22 / 100)) (fsub 1 (282578800148737 / 562949953421312))) 255))
     = (56, 27, 27)"
  "(py_int (fmul (fl (94 / 100)) 255),
    py_int (fmul (fmul (fl (94 / 100)) (fsub 1 (fmul (282578800148737 / 562949953421312) 1))) 255),
    py_int (fmul (fmul (fl (94 / 100)) (fsub 1 (282578800148737 / 562949953421312))) 255))
     = (239, 119, 119)"
  by code_simp+

lemma red_palette_2:
  assumes "cpython_lib L"
  shows "tonal_palette_from_pixels L [(255, 0, 0)] 2 =
     [(''tone0'', (56, 8, 8)), (''tone1'', (239, 35, 35))]"
proof -
  have ne: "fl (85 / 100) \<noteq> (0::rat)" by (rule colourful_thresholds)
  have e0: "tone_entry L 0 (fl (85 / 100)) (0, fl (22 / 100)) = (''tone0'', (56, 8, 8))"
    unfolding tone_entry_hue0[OF assms ne] red_tones str_nat_digits by simp
  have e1: "tone_entry L 0 (fl (85 / 100)) (Suc 0, fl (94 / 100)) = (''tone1'', (239, 35, 35))"
    unfolding tone_entry_hue0[OF assms ne] red_tones str_nat_digits by simp
  show ?thesis
    unfolding tonal_palette_red[OF assms] tone_values_2
    by (simp only: enumerate_simps list.map e0 e1)
qed

lemma white_palette_2:
  assumes "cpython_lib L"
  shows "tonal_palette_from_pixels L [(255, 255, 255)] 2 =
     [(''tone0'', (56, 42, 42)), (''tone1'', (239, 179, 179))]"
proof -
  have ne: "1 / 4 \<noteq> (0::rat)" by simp
  have e0: "tone_entry L 0 (1 / 4) (0, fl (22 / 100)) = (''tone0'', (56, 42, 42))"
    unfolding tone_entry_hue0[OF assms ne] white_tones str_nat_digits by simp
  have e1: "tone_entry L 0 (1 / 4) (Suc 0, fl (94 / 100)) = (''tone1'', (239, 179, 179))"
    unfolding tone_entry_hue0[OF assms ne] white_tones str_nat_digits by simp
  show ?thesis
    unfolding tonal_palette_white[OF assms] tone_values_2
    by (simp only: enumerate_simps list.map e0 e1)
qed

lemma pink_palette_2:
  assumes "cpython_lib L"
  shows "tonal_palette_from_pixels L [(255, 127, 127)] 2 =
     [(''tone0'', (56, 27, 27)), (''tone1'', (239, 119, 119))]"
proof -
  have ne: "282578800148737 / 562949953421312 \<noteq> (0::rat)" by simp
  have e0: "tone_entry L 0 (282578800148737 / 562949953421312) (0, fl (22 / 100)) = (''tone0'', (56, 27, 27))"
    unfolding tone_entry_hue0[OF assms ne] pink_tones str_nat_digits by simp
  have e1: "tone_entry L 0 (282578800148737 / 562949953421312) (Suc 0, fl (94 / 100)) = (''tone1'', (239, 119, 119))"
    unfolding tone_entry_hue0[OF assms ne] pink_tones str_nat_digits by simp
  show ?thesis
    unfolding tonal_palette_pink[OF assms] tone_values_2
    by (simp only: enumerate_simps list.map e0 e1)
qed

subsection \<open>The channels of an entry\<close>

lemma py_int_mono: "x \<le> y \<Longrightarrow> py_int x \<le> py_int y"
proof -
  assume le: "x \<le> y"
  have "\<lceil>x\<rceil> \<le> \<lfloor>y\<rfloor>" if "x < 0" "0 \<le> y"
  proof -
    have "\<lceil>x\<rceil> \<le> 0" using that(1) by (simp add: ceiling_le_iff)
    moreover have "0 \<le> \<lfloor>y\<rfloor>" using that(2) by simp
    ultimately show ?thesis by linarith
  qed
  then show ?thesis
    using le floor_mono[OF le] ceiling_mono[OF le] by (auto simp: py_int_def)
qed

lemma float_mod_unit: "0 \<le> float_mod x 1 \<and> float_mod x 1 \<le> 1"
proof -
  define m where "m = x - of_int (py_int (x / 1)) * 1"
  have m: "- 1 < m" "m < 1" unfolding m_def py_int_def by (auto; linarith)+
  have fm: "float_mod x 1 = (if m \<noteq> 0 \<and> m < 0 then fl (m + 1) else m)"
    unfolding float_mod_def Let_def m_def fadd_def by simp
  show ?thesis
  proof (cases "m < 0")
    case True
    then have "float_mod x 1 = fl (m + 1)" unfolding fm by simp
    moreover have "0 \<le> m + 1" "m + 1 \<le> 1" using m True by simp_all
    ultimately show ?thesis using fl_unit[of "m + 1"] by simp
  next
    case False
    then have "float_mod x 1 = m" unfolding fm by simp
    then show ?thesis using False m by simp
  qed
qed

lemma hue_sat_hue_unit: "hue_sat L colorful = (hue, sat0) \<Longrightarrow> 0 \<le> hue \<and> hue \<le> 1"
  using float_mod_unit by (auto simp: hue_sat_def Let_def split: if_splits)

lemma unit_step:
  assumes "0 \<le> a" "a \<le> 1" "0 \<le> b" "b \<le> 1"
  shows "0 \<le> fl (1 - fl (a * b))" "fl (1 - fl (a * b)) \<le> 1"
proof -
  have "0 \<le> a * b" using assms by simp
  moreover have "a * b \<le> 1 * 1" by (intro mult_mono) (use assms in simp_all)
  ultimately have "0 \<le> fl (a * b)" "fl (a * b) \<le> 1" using fl_unit[of "a * b"] by simp_all
  then have "0 \<le> 1 - fl (a * b)" "1 - fl (a * b) \<le> 1" by simp_all
  then show "0 \<le> fl (1 - fl (a * b))" "fl (1 - fl (a * b)) \<le> 1"
    using fl_unit[of "1 - fl (a * b)"] by simp_all
qed

text \<open>
  For a hue and a saturation in \<open>[0, 1]\<close>, one channel of \<open>hsv_to_rgb\<close> is the value \<open>v\<close>
  itself and no channel exceeds it.
\<close>

lemma hsv_to_rgb_channels:
  assumes h: "0 \<le> h" "h \<le> 1" and s: "0 \<le> s" "s \<le> 1" and v: "0 \<le> v" "fl v = v"
    and eq: "hsv_to_rgb h s v = (r, g, b)"
  shows "(r = v \<or> g = v \<or> b = v) \<and> 0 \<le> r \<and> r \<le> v \<and> 0 \<le> g \<and> g \<le> v \<and> 0 \<le> b \<and> b \<le> v"
proof (cases "s = 0")
  case True
  then show ?thesis using eq v by (simp add: hsv_to_rgb_def)
next
  case False
  define x where "x = fmul h 6"
  define i where "i = py_int x"
  define f where "f = fsub x (float_of_int i)"
  define p where "p = fmul v (fsub 1 s)"
  define q where "q = fmul v (fsub 1 (fmul s f))"
  define t where "t = fmul v (fsub 1 (fmul s (fsub 1 f)))"
  have "0 \<le> h * 6" "h * 6 \<le> 6" using h by simp_all
  from fl_nonneg[OF this(1)] fl_mono[OF this] have x: "0 \<le> x" "x \<le> 6"
    using fl_of_int[of 6] by (simp_all add: x_def fmul_def)
  have i: "i = \<lfloor>x\<rfloor>" using x by (simp add: i_def py_int_def)
  have "0 \<le> i" "i \<le> 6" using x unfolding i by (simp, simp add: floor_le_iff)
  then have "\<bar>i\<bar> < 2 ^ 53" by simp
  from fl_of_int[OF this] have fi: "float_of_int i = of_int i" by (simp add: float_of_int_def)
  have "0 \<le> x - of_int i" "x - of_int i \<le> 1" unfolding i by linarith+
  from fl_unit[OF this] have f: "0 \<le> f" "f \<le> 1" by (simp_all add: f_def fsub_def fi)
  have "0 \<le> 1 - s" "1 - s \<le> 1" using s by simp_all
  from fl_unit[OF this] have c1: "0 \<le> fsub 1 s" "fsub 1 s \<le> 1" by (simp_all add: fsub_def)
  from fl_scale_le[OF v c1] have p: "0 \<le> p" "p \<le> v" by (simp_all add: p_def fmul_def)
  from unit_step[OF s f] have c2: "0 \<le> fsub 1 (fmul s f)" "fsub 1 (fmul s f) \<le> 1"
    by (simp_all add: fsub_def fmul_def)
  from fl_scale_le[OF v c2] have q: "0 \<le> q" "q \<le> v" by (simp_all add: q_def fmul_def)
  have "0 \<le> 1 - f" "1 - f \<le> 1" using f by simp_all
  from fl_unit[OF this] have f1: "0 \<le> fsub 1 f" "fsub 1 f \<le> 1" by (simp_all add: fsub_def)
  from unit_step[OF s f1] have c3: "0 \<le> fsub 1 (fmul s (fsub 1 f))" "fsub 1 (fmul s (fsub 1 f)) \<le> 1"
    by (simp_all add: fsub_def fmul_def)
  from fl_scale_le[OF v c3] have t: "0 \<le> t" "t \<le> v" by (simp_all add: t_def fmul_def)
  have "(r, g, b) =
      (if i mod 6 = 0 then (v, t, p) else if i mod 6 = 1 then (q, v, p)
       else if i mod 6 = 2 then (p, v, t) else if i mod 6 = 3 then (p, q, v)
       else if i mod 6 = 4 then (t, p, v) else (v, p, q))"
    using False eq[symmetric]
    unfolding hsv_to_rgb_def Let_def x_def[symmetric] i_def[symmetric] f_def[symmetric]
      p_def[symmetric] q_def[symmetric] t_def[symmetric]
    by (simp only: if_False)
  then show ?thesis using p q t v(1) by (auto split: if_splits)
qed

lemma stored_max_channel:
  assumes "r = v \<or> g = v \<or> b = v" "0 \<le> r" "r \<le> v" "0 \<le> g" "g \<le> v" "0 \<le> b" "b \<le> v"
  shows "max (py_int (fmul r 255)) (max (py_int (fmul g 255)) (py_int (fmul b 255)))
           = py_int (fmul v 255)"
proof -
  have le: "py_int (fmul c 255) \<le> py_int (fmul v 255)" if "0 \<le> c" "c \<le> v" for c
  proof -
    have "0 \<le> c * 255" "c * 255 \<le> v * 255" using that by simp_all
    from fl_mono[OF this] show ?thesis unfolding fmul_def by (rule py_int_mono)
  qed
  from le[OF assms(2,3)] le[OF assms(4,5)] le[OF assms(6,7)] assms(1)
  show ?thesis by auto
qed

lemma tone_value_double:
  assumes "i < nat n"
  shows "0 \<le> tone_values n ! i" "fl (tone_values n ! i) = tone_values n ! i"
proof -
  define X where "X = fl (22 / 100) + fl (fl (72 / 100) * fl (of_nat i / of_int (max 1 (n - 1))))"
  have v: "tone_values n ! i = fl X" unfolding X_def by (rule tone_values_nth[OF assms])
  have a: "0 \<le> fl (22 / 100)" "0 \<le> fl (72 / 100)" by (simp_all add: fl_nonneg)
  have "(0::rat) \<le> of_nat i / of_int (max 1 (n - 1))" by simp
  then have "0 \<le> fl (of_nat i / of_int (max 1 (n - 1)))" by (rule fl_nonneg)
  then have "0 \<le> fl (72 / 100) * fl (of_nat i / of_int (max 1 (n - 1)))" using a(2) by simp
  then have "0 \<le> fl (fl (72 / 100) * fl (of_nat i / of_int (max 1 (n - 1))))" by (rule fl_nonneg)
  then have X: "0 \<le> X" using a(1) by (simp add: X_def)
  show "0 \<le> tone_values n ! i" unfolding v by (rule fl_nonneg[OF X])
  show "fl (tone_values n ! i) = tone_values n ! i" unfolding v by (rule fl_idem[OF X])
qed

lemma sat_unit: "0 \<le> fl (25 / 100)" "fl (85 / 100) \<le> 1"
  using fl_unit[of "25 / 100"] fl_unit[of "85 / 100"] by simp_all

lemma tonal_palette_entries_sat:
  "\<exists>hue sat. 0 \<le> hue \<and> hue \<le> 1 \<and> fl (25 / 100) \<le> sat \<and> sat \<le> fl (85 / 100) \<and>
      tonal_palette_from_pixels L pixels n =
        map (tone_entry L hue sat) (enumerate 0 (tone_values n))"
proof -
  obtain hue sat0 where hs: "hue_sat L (filter (\<lambda>(h, s, v). fl (12 / 100) < s) (hsv_values L pixels))
      = (hue, sat0)"
    by (cases "hue_sat L (filter (\<lambda>(h, s, v). fl (12 / 100) < s) (hsv_values L pixels))")
  define sat where "sat = max (fl (25 / 100)) (min (fl (85 / 100)) sat0)"
  have le: "fl (25 / 100) \<le> fl (85 / 100)" by (rule colourful_thresholds)
  have "0 \<le> hue \<and> hue \<le> 1" by (rule hue_sat_hue_unit[OF hs])
  moreover have "fl (25 / 100) \<le> sat" by (simp add: sat_def)
  moreover have "sat \<le> fl (85 / 100)"
    unfolding sat_def using le by (simp only: max.bounded_iff min.cobounded1 simp_thms)
  moreover have "tonal_palette_from_pixels L pixels n =
        map (tone_entry L hue sat) (enumerate 0 (tone_values n))"
    unfolding tonal_palette_from_pixels_def Let_def hs sat_def by (simp only: prod.case)
  ultimately show ?thesis by blast
qed

lemma tone_entry_channels:
  assumes hue: "0 \<le> hue" "hue \<le> 1" and sat: "fl (25 / 100) \<le> sat" "sat \<le> fl (85 / 100)"
    and v: "0 \<le> v" "fl v = v"
  shows "\<exists>r g b. colorsys_hsv_to_rgb L hue sat v = (r, g, b) \<and>
     snd (tone_entry L hue sat (i, v)) =
       (py_int (fmul r 255), py_int (fmul g 255), py_int (fmul b 255)) \<and>
     (colorsys_hsv_to_rgb L = hsv_to_rgb \<longrightarrow>
        (r = v \<or> g = v \<or> b = v) \<and> r \<le> v \<and> g \<le> v \<and> b \<le> v \<and>
        max (py_int (fmul r 255)) (max (py_int (fmul g 255)) (py_int (fmul b 255)))
          = py_int (fmul v 255))"
proof -
  obtain r g b where c: "colorsys_hsv_to_rgb L hue sat v = (r, g, b)"
    by (cases "colorsys_hsv_to_rgb L hue sat v")
  have e: "snd (tone_entry L hue sat (i, v)) =
       (py_int (fmul r 255), py_int (fmul g 255), py_int (fmul b 255))"
    by (simp add: tone_entry_def c)
  have s: "0 \<le> sat" "sat \<le> 1" using sat sat_unit by linarith+
  have "(r = v \<or> g = v \<or> b = v) \<and> r \<le> v \<and> g \<le> v \<and> b \<le> v \<and>
        max (py_int (fmul r 255)) (max (py_int (fmul g 255)) (py_int (fmul b 255)))
          = py_int (fmul v 255)" if "colorsys_hsv_to_rgb L = hsv_to_rgb"
  proof -
    from c that have "hsv_to_rgb hue sat v = (r, g, b)" by simp
    note ch = hsv_to_rgb_channels[OF hue s v this]
    from ch have "max (py_int (fmul r 255)) (max (py_int (fmul g 255)) (py_int (fmul b 255)))
          = py_int (fmul v 255)"
      by (intro stored_max_channel) simp_all
    with ch show ?thesis by simp
  qed
  with c e show ?thesis by blast
qed

lemma tone_entries_nth:
  "i < nat n \<Longrightarrow>
   map (tone_entry L hue sat) (enumerate 0 (tone_values n)) ! i =
     tone_entry L hue sat (i, tone_values n ! i)"
  by (simp add: length_tone_values nth_enumerate_eq)

lemma white_palette_nth:
  assumes "cpython_lib L" and "i < nat n"
  shows "tonal_palette_from_pixels L [(255, 255, 255)] n ! i =
    (''tone'' @ str_nat i,
      (py_int (fmul (tone_values n ! i) 255),
       py_int (fmul (fmul (tone_values n ! i) (fsub 1 (fmul (1 / 4) 1))) 255),
       py_int (fmul (fmul (tone_values n ! i) (fsub 1 (1 / 4))) 255)))"
proof -
  have ne: "(1 / 4 :: rat) \<noteq> 0" by simp
  show ?thesis
    unfolding tonal_palette_white[OF assms(1)] tone_entries_nth[OF assms(2)]
      tone_entry_hue0[OF assms(1) ne] ..
qed

lemma main_palette_white:
  "main_palette L \<lparr>arg_width = w, arg_height = h, arg_mode = Tonal, arg_palette_size = p,
      arg_buckets = b, arg_alpha_threshold = t\<rparr> [] =
   Inr (tonal_palette_from_pixels L [(255, 255, 255)] (max 2 b))"
  by (simp add: main_palette_def)

lemma levels_200:
  "tone_values 200 ! 1 = 8056690790672847 / 36028797018963968"
  "tone_values 200 ! 2 = 8187046237173621 / 36028797018963968"
  "tone_values 200 ! 52 = 1838102320276541 / 4503599627370496"
  "tone_values 200 ! 53 = 927198375544569 / 2251799813685248"
proof -
  have v: "tone_values 200 ! i = fl (fl (22 / 100) + fl (fl (72 / 100) * fl (of_nat i / 199)))"
    if "i < 200" for i
    using tone_values_nth[of i 200] that by simp
  have "fl (fl (22 / 100) + fl (fl (72 / 100) * fl (of_nat 1 / 199)))
      = 8056690790672847 / 36028797018963968" by code_simp
  then show "tone_values 200 ! 1 = 8056690790672847 / 36028797018963968"
    using v[of 1] by simp
  have "fl (fl (22 / 100) + fl (fl (72 / 100) * fl (of_nat 2 / 199)))
      = 8187046237173621 / 36028797018963968" by code_simp
  then show "tone_values 200 ! 2 = 8187046237173621 / 36028797018963968"
    using v[of 2] by simp
  have "fl (fl (22 / 100) + fl (fl (72 / 100) * fl (of_nat 52 / 199)))
      = 1838102320276541 / 4503599627370496" by code_simp
  then show "tone_values 200 ! 52 = 1838102320276541 / 4503599627370496"
    using v[of 52] by simp
  have "fl (fl (22 / 100) + fl (fl (72 / 100) * fl (of_nat 53 / 199)))
      = 927198375544569 / 2251799813685248" by code_simp
  then show "tone_values 200 ! 53 = 927198375544569 / 2251799813685248"
    using v[of 53] by simp
qed

lemma tones_200:
  "(py_int (fmul (8056690790672847 / 36028797018963968) 255),
    py_int (fmul (fmul (8056690790672847 / 36028797018963968) (fsub 1 (fmul (1 / 4) 1))) 255),
    py_int (fmul (fmul (8056690790672847 / 36028797018963968) (fsub 1 (1 / 4))) 255))
     = (57, 42, 42)"
  "(py_int (fmul (8187046237173621 / 36028797018963968) 255),
    py_int (fmul (fmul (8187046237173621 / 36028797018963968) (fsub 1 (fmul (1 / 4) 1))) 255),
    py_int (fmul (fmul (8187046237173621 / 36028797018963968) (fsub 1 (1 / 4))) 255))
     = (57, 43, 43)"
  "(py_int (fmul (1838102320276541 / 4503599627370496) 255),
    py_int (fmul (fmul (1838102320276541 / 4503599627370496) (fsub 1 (fmul (1 / 4) 1))) 255),
    py_int (fmul (fmul (1838102320276541 / 4503599627370496) (fsub 1 (1 / 4))) 255))
     = (104, 78, 78)"
  "(py_int (fmul (927198375544569 / 2251799813685248) 255),
    py_int (fmul (fmul (927198375544569 / 2251799813685248) (fsub 1 (fmul (1 / 4) 1))) 255),
    py_int (fmul (fmul (927198375544569 / 2251799813685248) (fsub 1 (1 / 4))) 255))
     = (104, 78, 78)"
  by code_simp+

text \<open>
  Claim C5, as the code has it. In tonal mode, with \<open>n = max(2, buckets)\<close>, the palette has
  exactly \<open>n\<close> entries, named \<open>tone0\<close> .. \<open>tone{n-1}\<close>. Entry \<open>i\<close> holds \<open>int(c * 255)\<close> for
  each channel \<open>c\<close> of \<open>hsv_to_rgb(hue, sat, v)\<close>, where \<open>v = tone_values n ! i\<close> is the
  \<open>i\<close>-th value level, the hue lies in \<open>[0, 1]\<close> and the saturation between the doubles
  \<open>0.25\<close> and \<open>0.85\<close>; with the \<open>hsv_to_rgb\<close> of CPython one channel is \<open>v\<close> itself and none
  is larger, so the brightness of the stored colour, its largest channel, is
  \<open>int(v * 255)\<close>. The levels start at the double \<open>0.22\<close>, end at the double \<open>0.94\<close> and are
  evenly spaced in between by linear interpolation, each within \<open>5 / 2 ^ 53\<close> of
  \<open>0.22 + 0.72 * i / (n - 1)\<close>. Up to \<open>2 ^ 49\<close> buckets the levels are strictly increasing
  and the stored brightness never decreases; the stored brightness is strictly increasing
  up to 184 buckets.
\<close>

theorem tonal_palette_levels:
  "arg_mode args = Tonal \<Longrightarrow> n = max 2 (arg_buckets args) \<Longrightarrow>
   (\<exists>palette hue sat. main_palette L args solid = Inr palette \<and> length palette = nat n \<and>
       map fst palette = map (\<lambda>i. ''tone'' @ str_nat i) [0 ..< nat n] \<and>
       0 \<le> hue \<and> hue \<le> 1 \<and> fl (25 / 100) \<le> sat \<and> sat \<le> fl (85 / 100) \<and>
       (\<forall>i<nat n. \<exists>r g b.
           colorsys_hsv_to_rgb L hue sat (tone_values n ! i) = (r, g, b) \<and>
           snd (palette ! i) = (py_int (fmul r 255), py_int (fmul g 255), py_int (fmul b 255)) \<and>
           (colorsys_hsv_to_rgb L = hsv_to_rgb \<longrightarrow>
              (r = tone_values n ! i \<or> g = tone_values n ! i \<or> b = tone_values n ! i) \<and>
              r \<le> tone_values n ! i \<and> g \<le> tone_values n ! i \<and> b \<le> tone_values n ! i \<and>
              max (py_int (fmul r 255)) (max (py_int (fmul g 255)) (py_int (fmul b 255)))
                = py_int (fmul (tone_values n ! i) 255)))) \<and>
   length (tone_values n) = nat n \<and>
   tone_values n ! 0 = fl (22 / 100) \<and> tone_values n ! (nat n - 1) = fl (94 / 100) \<and>
   (\<forall>i<nat n. \<bar>tone_values n ! i - (22 / 100 + 72 / 100 * (of_nat i / of_int (n - 1)))\<bar>
                \<le> 5 / 2 ^ 53) \<and>
   (arg_buckets args \<le> 2 ^ 49 \<longrightarrow>
      (\<forall>i j. i < j \<and> j < nat n \<longrightarrow>
         tone_values n ! i < tone_values n ! j \<and>
         py_int (fmul (tone_values n ! i) 255) \<le> py_int (fmul (tone_values n ! j) 255))) \<and>
   (arg_buckets args \<le> 184 \<longrightarrow>
      (\<forall>i j. i < j \<and> j < nat n \<longrightarrow>
         py_int (fmul (tone_values n ! i) 255) < py_int (fmul (tone_values n ! j) 255)))"
proof -
  assume t: "arg_mode args = Tonal" and n: "n = max 2 (arg_buckets args)"
  have n2: "2 \<le> n" using n by simp
  obtain hue sat where hue: "0 \<le> hue" "hue \<le> 1"
    and sat: "fl (25 / 100) \<le> sat" "sat \<le> fl (85 / 100)"
    and hs: "tonal_palette_from_pixels L
      (if solid \<noteq> [] then solid else [(255, 255, 255)]) n =
      map (tone_entry L hue sat) (enumerate 0 (tone_values n))"
    using tonal_palette_entries_sat by blast
  define palette where "palette = map (tone_entry L hue sat) (enumerate 0 (tone_values n))"
  have mp: "main_palette L args solid = Inr palette"
    using t by (simp add: main_palette_def n[symmetric] hs palette_def)
  have len: "length palette = nat n" by (simp add: palette_def length_tone_values)
  have names: "map fst palette = map (\<lambda>i. ''tone'' @ str_nat i) [0 ..< nat n]"
    unfolding palette_def map_fst_tone_entries length_tone_values ..
  have ent: "\<forall>i<nat n. \<exists>r g b.
           colorsys_hsv_to_rgb L hue sat (tone_values n ! i) = (r, g, b) \<and>
           snd (palette ! i) = (py_int (fmul r 255), py_int (fmul g 255), py_int (fmul b 255)) \<and>
           (colorsys_hsv_to_rgb L = hsv_to_rgb \<longrightarrow>
              (r = tone_values n ! i \<or> g = tone_values n ! i \<or> b = tone_values n ! i) \<and>
              r \<le> tone_values n ! i \<and> g \<le> tone_values n ! i \<and> b \<le> tone_values n ! i \<and>
              max (py_int (fmul r 255)) (max (py_int (fmul g 255)) (py_int (fmul b 255)))
                = py_int (fmul (tone_values n ! i) 255))"
  proof (intro allI impI)
    fix i assume i: "i < nat n"
    then have "palette ! i = tone_entry L hue sat (i, tone_values n ! i)"
      unfolding palette_def by (rule tone_entries_nth)
    then show "\<exists>r g b.
           colorsys_hsv_to_rgb L hue sat (tone_values n ! i) = (r, g, b) \<and>
           snd (palette ! i) = (py_int (fmul r 255), py_int (fmul g 255), py_int (fmul b 255)) \<and>
           (colorsys_hsv_to_rgb L = hsv_to_rgb \<longrightarrow>
              (r = tone_values n ! i \<or> g = tone_values n ! i \<or> b = tone_values n ! i) \<and>
              r \<le> tone_values n ! i \<and> g \<le> tone_values n ! i \<and> b \<le> tone_values n ! i \<and>
              max (py_int (fmul r 255)) (max (py_int (fmul g 255)) (py_int (fmul b 255)))
                = py_int (fmul (tone_values n ! i) 255))"
      using tone_entry_channels[OF hue sat tone_value_double[OF i], of L i] by simp
  qed
  have a: "\<exists>palette hue sat. main_palette L args solid = Inr palette \<and> length palette = nat n \<and>
       map fst palette = map (\<lambda>i. ''tone'' @ str_nat i) [0 ..< nat n] \<and>
       0 \<le> hue \<and> hue \<le> 1 \<and> fl (25 / 100) \<le> sat \<and> sat \<le> fl (85 / 100) \<and>
       (\<forall>i<nat n. \<exists>r g b.
           colorsys_hsv_to_rgb L hue sat (tone_values n ! i) = (r, g, b) \<and>
           snd (palette ! i) = (py_int (fmul r 255), py_int (fmul g 255), py_int (fmul b 255)) \<and>
           (colorsys_hsv_to_rgb L = hsv_to_rgb \<longrightarrow>
              (r = tone_values n ! i \<or> g = tone_values n ! i \<or> b = tone_values n ! i) \<and>
              r \<le> tone_values n ! i \<and> g \<le> tone_values n ! i \<and> b \<le> tone_values n ! i \<and>
              max (py_int (fmul r 255)) (max (py_int (fmul g 255)) (py_int (fmul b 255)))
                = py_int (fmul (tone_values n ! i) 255)))"
    using mp len names hue sat ent by blast
  have e: "\<forall>i<nat n. \<bar>tone_values n ! i - (22 / 100 + 72 / 100 * (of_nat i / of_int (n - 1)))\<bar>
                \<le> 5 / 2 ^ 53"
    using tone_values_error[OF n2] by blast
  have s: "arg_buckets args \<le> 2 ^ 49 \<longrightarrow>
      (\<forall>i j. i < j \<and> j < nat n \<longrightarrow>
         tone_values n ! i < tone_values n ! j \<and>
         py_int (fmul (tone_values n ! i) 255) \<le> py_int (fmul (tone_values n ! j) 255))"
  proof
    assume "arg_buckets args \<le> 2 ^ 49"
    then have "n \<le> 2 ^ 49" using n by simp
    then show "\<forall>i j. i < j \<and> j < nat n \<longrightarrow>
         tone_values n ! i < tone_values n ! j \<and>
         py_int (fmul (tone_values n ! i) 255) \<le> py_int (fmul (tone_values n ! j) 255)"
      using tone_values_strict[OF n2] stored_value_mono[OF n2] by blast
  qed
  have s2: "arg_buckets args \<le> 184 \<longrightarrow>
      (\<forall>i j. i < j \<and> j < nat n \<longrightarrow>
         py_int (fmul (tone_values n ! i) 255) < py_int (fmul (tone_values n ! j) 255))"
  proof
    assume "arg_buckets args \<le> 184"
    then have "n \<le> 184" using n by simp
    then show "\<forall>i j. i < j \<and> j < nat n \<longrightarrow>
         py_int (fmul (tone_values n ! i) 255) < py_int (fmul (tone_values n ! j) 255)"
      using stored_value_strict[OF n2] by blast
  qed
  from a length_tone_values[of n] tone_values_first[OF n2] tone_values_last[OF n2] e s s2
  show ?thesis by blast
qed

theorem tonal_palette_levels_witness:
  "arg_mode \<lparr>arg_width = 15, arg_height = 15, arg_mode = Tonal, arg_palette_size = 32,
      arg_buckets = 6, arg_alpha_threshold = 40\<rparr> = Tonal \<and>
   (6::int) = max 2 6 \<and> (6::int) \<le> 2 ^ 49 \<and> (6::int) \<le> 184 \<and>
   colorsys_hsv_to_rgb sample_lib = hsv_to_rgb \<and>
   (\<exists>palette. main_palette sample_lib
       \<lparr>arg_width = 15, arg_height = 15, arg_mode = Tonal, arg_palette_size = 32,
        arg_buckets = 6, arg_alpha_threshold = 40\<rparr> [] = Inr palette \<and>
      length palette = 6 \<and>
      map fst palette = [''tone0'', ''tone1'', ''tone2'', ''tone3'', ''tone4'', ''tone5''] \<and>
      palette ! 0 = (''tone0'', (56, 42, 42)) \<and> palette ! 5 = (''tone5'', (239, 179, 179))) \<and>
   length (tone_values 6) = 6 \<and>
   tone_values 6 ! 0 = fl (22 / 100) \<and> tone_values 6 ! 5 = fl (94 / 100) \<and>
   py_int (fmul (tone_values 6 ! 0) 255) = 56 \<and> py_int (fmul (tone_values 6 ! 5) 255) = 239 \<and>
   tone_values 6 ! 0 < tone_values 6 ! 1 \<and> tone_values 6 ! 1 < tone_values 6 ! 2 \<and>
   tone_values 6 ! 2 < tone_values 6 ! 3 \<and> tone_values 6 ! 3 < tone_values 6 ! 4 \<and>
   tone_values 6 ! 4 < tone_values 6 ! 5 \<and>
   py_int (fmul (tone_values 6 ! 0) 255) < py_int (fmul (tone_values 6 ! 1) 255) \<and>
   py_int (fmul (tone_values 6 ! 1) 255) < py_int (fmul (tone_values 6 ! 2) 255) \<and>
   py_int (fmul (tone_values 6 ! 2) 255) < py_int (fmul (tone_values 6 ! 3) 255) \<and>
   py_int (fmul (tone_values 6 ! 3) 255) < py_int (fmul (tone_values 6 ! 4) 255) \<and>
   py_int (fmul (tone_values 6 ! 4) 255) < py_int (fmul (tone_values 6 ! 5) 255)"
proof -
  let ?A = "\<lparr>arg_width = 15, arg_height = 15, arg_mode = Tonal, arg_palette_size = 32,
        arg_buckets = 6, arg_alpha_threshold = 40\<rparr>"
  let ?P = "tonal_palette_from_pixels sample_lib [(255, 255, 255)] 6"
  have names: "map (\<lambda>i. ''tone'' @ str_nat i) [0 ..< nat 6] =
      [''tone0'', ''tone1'', ''tone2'', ''tone3'', ''tone4'', ''tone5'']"
    by code_simp
  have lib: "colorsys_hsv_to_rgb sample_lib = hsv_to_rgb" by (simp add: sample_lib_def)
  have P: "main_palette sample_lib ?A [] = Inr ?P" by (simp add: main_palette_white)
  have tv0: "tone_values 6 ! 0 = fl (22 / 100)" by (rule tone_values_first) simp
  have tv5: "tone_values 6 ! 5 = fl (94 / 100)" using tone_values_last[of 6] by simp
  have "?P ! 0 = (''tone'' @ str_nat 0,
      (py_int (fmul (tone_values 6 ! 0) 255),
       py_int (fmul (fmul (tone_values 6 ! 0) (fsub 1 (fmul (1 / 4) 1))) 255),
       py_int (fmul (fmul (tone_values 6 ! 0) (fsub 1 (1 / 4))) 255)))"
    by (rule white_palette_nth[OF sample_lib_cpython]) simp
  then have p0: "?P ! 0 = (''tone0'', (56, 42, 42))"
    unfolding tv0 white_tones str_nat_digits by simp
  have "?P ! 5 = (''tone'' @ str_nat 5,
      (py_int (fmul (tone_values 6 ! 5) 255),
       py_int (fmul (fmul (tone_values 6 ! 5) (fsub 1 (fmul (1 / 4) 1))) 255),
       py_int (fmul (fmul (tone_values 6 ! 5) (fsub 1 (1 / 4))) 255)))"
    by (rule white_palette_nth[OF sample_lib_cpython]) simp
  then have p5: "?P ! 5 = (''tone5'', (239, 179, 179))"
    unfolding tv5 white_tones str_nat_digits by simp
  from white_tones have st: "py_int (fmul (tone_values 6 ! 0) 255) = 56"
      "py_int (fmul (tone_values 6 ! 5) 255) = 239"
    unfolding tv0 tv5 by simp_all
  note w = tonal_palette_levels [of ?A 6 sample_lib "[]", unfolded names]
  from w P have shape: "length ?P = 6 \<and>
      map fst ?P = [''tone0'', ''tone1'', ''tone2'', ''tone3'', ''tone4'', ''tone5'']"
    by auto
  from w have strict: "i < j \<and> j < 6 \<longrightarrow> tone_values 6 ! i < tone_values 6 ! j" for i j
    by simp
  from w have stored: "i < j \<and> j < 6 \<longrightarrow>
      py_int (fmul (tone_values 6 ! i) 255) < py_int (fmul (tone_values 6 ! j) 255)" for i j
    by simp
  have ex: "\<exists>palette. main_palette sample_lib ?A [] = Inr palette \<and> length palette = 6 \<and>
      map fst palette = [''tone0'', ''tone1'', ''tone2'', ''tone3'', ''tone4'', ''tone5''] \<and>
      palette ! 0 = (''tone0'', (56, 42, 42)) \<and> palette ! 5 = (''tone5'', (239, 179, 179))"
    by (rule exI[of _ ?P]) (simp only: P shape p0 p5 simp_thms)
  from ex lib tv0 tv5 st strict[of 0 1] strict[of 1 2] strict[of 2 3] strict[of 3 4] strict[of 4 5]
    stored[of 0 1] stored[of 1 2] stored[of 2 3] stored[of 3 4] stored[of 4 5]
  show ?thesis by (simp add: length_tone_values)
qed

text \<open>
  The claim as stated, strictly increasing brightness across the entries for every bucket
  count, fails for the palette that \<open>main\<close> builds with \<open>--buckets 200\<close> from an image
  without a solid pixel: \<open>tone1\<close> and \<open>tone2\<close> have the same brightness 57, and \<open>tone52\<close>
  and \<open>tone53\<close> are the same colour. The 200 levels are less than \<open>1 / 255\<close> apart, and
  \<open>int\<close> maps two of them to the same byte.
\<close>

theorem tonal_palette_strict_counterexample:
  "main_palette sample_lib
     \<lparr>arg_width = 15, arg_height = 15, arg_mode = Tonal, arg_palette_size = 32,
      arg_buckets = 200, arg_alpha_threshold = 40\<rparr> [] =
     Inr (tonal_palette_from_pixels sample_lib [(255, 255, 255)] 200) \<and>
   tonal_palette_from_pixels sample_lib [(255, 255, 255)] 200 ! 1 = (''tone1'', (57, 42, 42)) \<and>
   tonal_palette_from_pixels sample_lib [(255, 255, 255)] 200 ! 2 = (''tone2'', (57, 43, 43)) \<and>
   tonal_palette_from_pixels sample_lib [(255, 255, 255)] 200 ! 52 = (''tone52'', (104, 78, 78)) \<and>
   tonal_palette_from_pixels sample_lib [(255, 255, 255)] 200 ! 53 = (''tone53'', (104, 78, 78))"
proof -
  let ?P = "tonal_palette_from_pixels sample_lib [(255, 255, 255)] 200"
  have e: "?P ! i = (''tone'' @ str_nat i,
      (py_int (fmul (tone_values 200 ! i) 255),
       py_int (fmul (fmul (tone_values 200 ! i) (fsub 1 (fmul (1 / 4) 1))) 255),
       py_int (fmul (fmul (tone_values 200 ! i) (fsub 1 (1 / 4))) 255)))" if "i < 200" for i
    by (rule white_palette_nth[OF sample_lib_cpython]) (use that in simp)
  have p1: "?P ! 1 = (''tone1'', (57, 42, 42))"
    using e[of 1] unfolding levels_200 tones_200 str_nat_digits by simp
  have p2: "?P ! 2 = (''tone2'', (57, 43, 43))"
    using e[of 2] unfolding levels_200 tones_200 str_nat_digits by simp
  have p52: "?P ! 52 = (''tone52'', (104, 78, 78))"
    using e[of 52] unfolding levels_200 tones_200 str_nat_digits by simp
  have p53: "?P ! 53 = (''tone53'', (104, 78, 78))"
    using e[of 53] unfolding levels_200 tones_200 str_nat_digits by simp
  show ?thesis using p1 p2 p52 p53 by (simp add: main_palette_white)
qed

section \<open>The pixels behind the tonal palette\<close>

lemma solid_pixels_below:
  "\<forall>p\<in>set rest. (case p of (r, g, b, a) \<Rightarrow> a < t) \<Longrightarrow> solid_pixels t rest = []"
  by (induction t rest rule: solid_pixels.induct) auto

lemma map_pixels_below:
  "\<forall>p\<in>set rest. (case p of (r, g, b, a) \<Rightarrow> a < t) \<Longrightarrow>
   map_pixels t palette rest = map (\<lambda>p. - 1) rest"
  by (induction t palette rest rule: map_pixels.induct) auto

lemma main_core_tonal:
  assumes "arg_mode args = Tonal"
  shows "\<exists>out. main_core L args pixels_rgba = Inr out \<and>
      out_palette out = tonal_palette_from_pixels L
        (if solid_pixels (arg_alpha_threshold args) pixels_rgba \<noteq> []
         then solid_pixels (arg_alpha_threshold args) pixels_rgba else [(255, 255, 255)])
        (max 2 (arg_buckets args)) \<and>
      out_mapped out = map_pixels (arg_alpha_threshold args) (out_palette out) pixels_rgba"
  using assms by (simp add: main_core_def main_palette_def Let_def)

lemma flatten_channels_128:
  "flatten_channel 255 (fdiv (float_of_int 128) 255) = 255"
  "flatten_channel 0 (fdiv (float_of_int 128) 255) = 127"
  by code_simp+

text \<open>
  Claim C10. In tonal mode the palette is derived from the raw \<open>(r, g, b)\<close> of exactly
  the pixels whose alpha is at or above the threshold, in their order, or from the single
  white pixel \<open>(255, 255, 255)\<close> when there is none; the grid matches the flattened colour
  of the same pixels against that palette. With the \<open>colorsys\<close> of CPython and two
  buckets: a red pixel \<open>(255, 0, 0, a)\<close> among pixels below the threshold gives the
  palette of pure red, \<open>(56, 8, 8)\<close> and \<open>(239, 35, 35)\<close>, for every alpha \<open>a\<close> at or above
  the threshold, however translucent the pixel is and whatever colour it is flattened to
  for the matching; and the palette of white, \<open>(56, 42, 42)\<close> and \<open>(239, 179, 179)\<close>, as soon
  as \<open>a\<close> is below the threshold.
\<close>

theorem tonal_palette_from_raw_solid_pixels:
  "arg_mode args = Tonal \<Longrightarrow>
   (\<exists>out. main_core L args pixels_rgba = Inr out \<and>
      out_palette out = tonal_palette_from_pixels L
        (if filter (\<lambda>(r, g, b, a). arg_alpha_threshold args \<le> a) pixels_rgba = []
         then [(255, 255, 255)]
         else map (\<lambda>(r, g, b, a). (r, g, b))
                (filter (\<lambda>(r, g, b, a). arg_alpha_threshold args \<le> a) pixels_rgba))
        (max 2 (arg_buckets args)) \<and>
      out_mapped out =
        map (\<lambda>(r, g, b, a). if a < arg_alpha_threshold args then - 1
               else int (nearest_palette_index (flattened_rgb (r, g, b, a)) (out_palette out)))
          pixels_rgba) \<and>
   (cpython_lib L \<and> arg_buckets args \<le> 2 \<and>
    (\<forall>p\<in>set rest. (case p of (r, g, b, a') \<Rightarrow> a' < arg_alpha_threshold args)) \<longrightarrow>
      (arg_alpha_threshold args \<le> a \<longrightarrow>
         (\<exists>out. main_core L args ((255, 0, 0, a) # rest) = Inr out \<and>
            out_palette out = [(''tone0'', (56, 8, 8)), (''tone1'', (239, 35, 35))] \<and>
            out_mapped out =
              int (nearest_palette_index (flattened_rgb (255, 0, 0, a)) (out_palette out))
                # map (\<lambda>p. - 1) rest)) \<and>
      (a < arg_alpha_threshold args \<longrightarrow>
         (\<exists>out. main_core L args ((255, 0, 0, a) # rest) = Inr out \<and>
            out_palette out = [(''tone0'', (56, 42, 42)), (''tone1'', (239, 179, 179))] \<and>
            out_mapped out = - 1 # map (\<lambda>p. - 1) rest)))"
proof -
  assume t: "arg_mode args = Tonal"
  let ?T = "arg_alpha_threshold args"
  have flow: "\<exists>out. main_core L args pixels_rgba = Inr out \<and>
      out_palette out = tonal_palette_from_pixels L
        (if filter (\<lambda>(r, g, b, a). ?T \<le> a) pixels_rgba = []
         then [(255, 255, 255)]
         else map (\<lambda>(r, g, b, a). (r, g, b)) (filter (\<lambda>(r, g, b, a). ?T \<le> a) pixels_rgba))
        (max 2 (arg_buckets args)) \<and>
      out_mapped out =
        map (\<lambda>(r, g, b, a). if a < ?T then - 1
               else int (nearest_palette_index (flattened_rgb (r, g, b, a)) (out_palette out)))
          pixels_rgba"
  proof -
    from main_core_tonal[OF t, of L pixels_rgba] obtain out where
      o: "main_core L args pixels_rgba = Inr out"
        "out_palette out = tonal_palette_from_pixels L
          (if solid_pixels ?T pixels_rgba \<noteq> [] then solid_pixels ?T pixels_rgba
           else [(255, 255, 255)]) (max 2 (arg_buckets args))"
        "out_mapped out = map_pixels ?T (out_palette out) pixels_rgba"
      by blast
    show ?thesis
      apply (rule exI[of _ out])
      unfolding o(3) map_pixels_eq_map
      using o(1) o(2) by (simp add: solid_pixels_eq_filter)
  qed
  have ex: "(?T \<le> a \<longrightarrow>
         (\<exists>out. main_core L args ((255, 0, 0, a) # rest) = Inr out \<and>
            out_palette out = [(''tone0'', (56, 8, 8)), (''tone1'', (239, 35, 35))] \<and>
            out_mapped out =
              int (nearest_palette_index (flattened_rgb (255, 0, 0, a)) (out_palette out))
                # map (\<lambda>p. - 1) rest)) \<and>
      (a < ?T \<longrightarrow>
         (\<exists>out. main_core L args ((255, 0, 0, a) # rest) = Inr out \<and>
            out_palette out = [(''tone0'', (56, 42, 42)), (''tone1'', (239, 179, 179))] \<and>
            out_mapped out = - 1 # map (\<lambda>p. - 1) rest))"
    if lib: "cpython_lib L" and b: "arg_buckets args \<le> 2"
      and below: "\<forall>p\<in>set rest. (case p of (r, g, b, a') \<Rightarrow> a' < ?T)"
  proof -
    have n: "max 2 (arg_buckets args) = 2" using b by simp
    from main_core_tonal[OF t, of L "(255, 0, 0, a) # rest"] obtain out where
      o: "main_core L args ((255, 0, 0, a) # rest) = Inr out"
        "out_palette out = tonal_palette_from_pixels L
          (if solid_pixels ?T ((255, 0, 0, a) # rest) \<noteq> []
           then solid_pixels ?T ((255, 0, 0, a) # rest) else [(255, 255, 255)]) 2"
        "out_mapped out = map_pixels ?T (out_palette out) ((255, 0, 0, a) # rest)"
      unfolding n by blast
    have pass: "out_palette out = [(''tone0'', (56, 8, 8)), (''tone1'', (239, 35, 35))] \<and>
        out_mapped out =
          int (nearest_palette_index (flattened_rgb (255, 0, 0, a)) (out_palette out))
            # map (\<lambda>p. - 1) rest" if "?T \<le> a"
      using that o(2,3) by (simp add: solid_pixels_below[OF below] map_pixels_below[OF below]
          red_palette_2[OF lib])
    have drop: "out_palette out = [(''tone0'', (56, 42, 42)), (''tone1'', (239, 179, 179))] \<and>
        out_mapped out = - 1 # map (\<lambda>p. - 1) rest" if "a < ?T"
      using that o(2,3) by (simp add: solid_pixels_below[OF below] map_pixels_below[OF below]
          white_palette_2[OF lib])
    from o(1) pass drop show ?thesis by blast
  qed
  from flow ex show ?thesis by blast
qed

theorem tonal_palette_from_raw_solid_pixels_witness:
  "cpython_lib sample_lib \<and> (40::int) \<le> 128 \<and> (39::int) < 40 \<and>
   (\<exists>out. main_core sample_lib
       \<lparr>arg_width = 2, arg_height = 1, arg_mode = Tonal, arg_palette_size = 32, arg_buckets = 2,
        arg_alpha_threshold = 40\<rparr> [(255, 0, 0, 128), (0, 0, 255, 39)] = Inr out \<and>
      out_palette out = [(''tone0'', (56, 8, 8)), (''tone1'', (239, 35, 35))] \<and>
      out_mapped out =
        [int (nearest_palette_index (flattened_rgb (255, 0, 0, 128)) (out_palette out)), - 1]) \<and>
   (\<exists>out. main_core sample_lib
       \<lparr>arg_width = 2, arg_height = 1, arg_mode = Tonal, arg_palette_size = 32, arg_buckets = 2,
        arg_alpha_threshold = 40\<rparr> [(255, 0, 0, 39), (0, 0, 255, 39)] = Inr out \<and>
      out_palette out = [(''tone0'', (56, 42, 42)), (''tone1'', (239, 179, 179))] \<and>
      out_mapped out = [- 1, - 1]) \<and>
   flattened_rgb (255, 0, 0, 128) = (255, 127, 127) \<and>
   tonal_palette_from_pixels sample_lib [(255, 127, 127)] 2 =
     [(''tone0'', (56, 27, 27)), (''tone1'', (239, 119, 119))]"
proof -
  have f: "flattened_rgb (255, 0, 0, 128) = (255, 127, 127)"
    by (simp add: flattened_rgb_def flatten_channels_128)
  note w = tonal_palette_from_raw_solid_pixels [of
      "\<lparr>arg_width = 2, arg_height = 1, arg_mode = Tonal, arg_palette_size = 32, arg_buckets = 2,
        arg_alpha_threshold = 40\<rparr>" sample_lib "[]" "[(0, 0, 255, 39)]"]
  from w[of 128] w[of 39] sample_lib_cpython f pink_palette_2[OF sample_lib_cpython]
  show ?thesis by simp
qed

end
